theory Spec2Isabelle
  imports Main "HOL-Library.AList"
begin

section \<open>Values, exceptions and the byte stream\<close>

text \<open>
  The server of \<^verbatim>\<open>ser.py\<close> works on Python values. A byte string is a list of
  8-bit characters. A \<^verbatim>\<open>str\<close> is modelled over the code points below 256, which
  covers every text the server itself builds (ASCII decodings and its own messages).
  \<^verbatim>\<open>Error\<close> is the named tuple with the single field \<^verbatim>\<open>message\<close>. The plain
  tuples that only the client library builds are left out. A \<^verbatim>\<open>dict\<close> is an
  association list in insertion order. Integers are unbounded; a conversion between
  an integer and its decimal digits is refused above the interpreter's default limit
  of 4300 digits. The sizes are those of a 64-bit interpreter. Running out of memory
  is not modelled.
\<close>

type_synonym bytes = string

datatype pyval =
    PBytes bytes
  | PStr string
  | PInt int
  | PNone
  | PList "pyval list"
  | PDict "(pyval \<times> pyval) list"
  | Error pyval

text \<open>
  Every exception the modelled code can raise. \<open>RecursionError\<close> is what the
  interpreter raises when the decoder nests deeper than the stack allows.
\<close>

datatype exn =
    Disconnect
  | CommandError string
  | ValueError
  | TypeError
  | NameError
  | AttributeError
  | UnicodeDecodeError
  | OverflowError
  | RecursionError

datatype mode = client_side | server_side

abbreviation CR :: char where "CR \<equiv> CHR 0x0D"
abbreviation LF :: char where "LF \<equiv> CHR 0x0A"
abbreviation CRLF :: bytes where "CRLF \<equiv> [CR, LF]"

text \<open>
  The socket file is the list of bytes the peer sends before it closes its side.
  \<^verbatim>\<open>read(n)\<close> returns up to \<open>n\<close> bytes, everything for \<open>n = -1\<close>, and
  refuses a smaller \<open>n\<close>; an \<open>n\<close> that does not fit the signed 64-bit size type
  raises \<^verbatim>\<open>OverflowError\<close> before that. \<^verbatim>\<open>readline()\<close> returns the bytes up to
  and including the first line feed, or everything that is left when there is none.
\<close>

definition ssize_max :: int where
  "ssize_max = 2 ^ 63 - 1"

definition read :: "int \<Rightarrow> bytes \<Rightarrow> exn + (bytes \<times> bytes)" where
  "read n s =
     (if n < - ssize_max - 1 then Inl OverflowError
      else if ssize_max < n then Inl OverflowError
      else if n < - 1 then Inl ValueError
      else if n = - 1 then Inr (s, [])
      else Inr (take (nat n) s, drop (nat n) s))"

definition readline :: "bytes \<Rightarrow> bytes \<times> bytes" where
  "readline s =
     (case dropWhile (\<lambda>c. c \<noteq> LF) s of
        [] \<Rightarrow> (s, [])
      | c # r \<Rightarrow> (takeWhile (\<lambda>c. c \<noteq> LF) s @ [c], r))"

text \<open>\<^verbatim>\<open>b.rstrip(cs)\<close> removes every trailing byte that occurs in \<open>cs\<close>.\<close>

definition rstrip :: "bytes \<Rightarrow> bytes \<Rightarrow> bytes" where
  "rstrip cs s = rev (dropWhile (\<lambda>c. c \<in> set cs) (rev s))"

subsection \<open>Decimal integers\<close>

definition is_space :: "char \<Rightarrow> bool" where
  "is_space c = (c \<in> set [CHR 0x20, CHR 0x09, LF, CHR 0x0B, CHR 0x0C, CR])"

definition is_digit :: "char \<Rightarrow> bool" where
  "is_digit c = (48 \<le> (of_char c :: nat) \<and> (of_char c :: nat) \<le> 57)"

definition digit_val :: "char \<Rightarrow> nat" where
  "digit_val c = of_char c - 48"

definition digit_char :: "nat \<Rightarrow> char" where
  "digit_char n = char_of (48 + n)"

fun double_underscore :: "bytes \<Rightarrow> bool" where
  "double_underscore (a # b # cs) =
     ((a = CHR ''_'' \<and> b = CHR ''_'') \<or> double_underscore (b # cs))"
| "double_underscore _ = False"

text \<open>The default of \<^verbatim>\<open>sys.get_int_max_str_digits()\<close>.\<close>

definition max_str_digits :: nat where
  "max_str_digits = 4300"

text \<open>
  \<^verbatim>\<open>int(b)\<close> on a byte string, base ten: optional white space, an optional sign,
  digits with single underscores between them, optional white space, and nothing else;
  at most \<open>max_str_digits\<close> digits.
\<close>

definition py_int :: "bytes \<Rightarrow> exn + int" where
  "py_int s =
     (let s1 = dropWhile is_space s;
          neg = (case s1 of [] \<Rightarrow> False | c # _ \<Rightarrow> c = CHR ''-'');
          s2 = (case s1 of [] \<Rightarrow> []
                | c # r \<Rightarrow> if c = CHR ''-'' \<or> c = CHR ''+'' then r else s1);
          body = takeWhile (\<lambda>c. is_digit c \<or> c = CHR ''_'') s2;
          rest = dropWhile (\<lambda>c. is_digit c \<or> c = CHR ''_'') s2;
          n = foldl (\<lambda>a c. 10 * a + digit_val c) 0 (filter is_digit body)
      in case body of
           [] \<Rightarrow> Inl ValueError
         | c # _ \<Rightarrow>
             if is_digit c \<and> is_digit (last body) \<and> \<not> double_underscore body
                \<and> list_all is_space rest
                \<and> length (filter is_digit body) \<le> max_str_digits
             then Inr (if neg then - int n else int n)
             else Inl ValueError)"

text \<open>
  The \<^verbatim>\<open>%d\<close> conversion: decimal digits, with a minus sign when negative, refused
  with \<^verbatim>\<open>ValueError\<close> when there are more than \<open>max_str_digits\<close> digits.
\<close>

fun show_nat :: "nat \<Rightarrow> bytes" where
  "show_nat n =
     (if n < 10 then [digit_char n] else show_nat (n div 10) @ [digit_char (n mod 10)])"

declare show_nat.simps [simp del]

definition show_int :: "int \<Rightarrow> bytes" where
  "show_int i = (if i < 0 then CHR ''-'' # show_nat (nat (- i)) else show_nat (nat i))"

definition percent_d :: "int \<Rightarrow> exn + bytes" where
  "percent_d i =
     (if max_str_digits < length (show_nat (nat \<bar>i\<bar>)) then Inl ValueError
      else Inr (show_int i))"

subsection \<open>Text encodings\<close>

text \<open>\<^verbatim>\<open>s.encode('utf-8')\<close> on the code points below 256.\<close>

fun encode_utf8 :: "string \<Rightarrow> bytes" where
  "encode_utf8 [] = []"
| "encode_utf8 (c # cs) =
     (if (of_char c :: nat) < 128 then [c]
      else [char_of (192 + (of_char c :: nat) div 64), char_of (128 + (of_char c :: nat) mod 64)])
     @ encode_utf8 cs"

text \<open>\<^verbatim>\<open>b.decode('ascii')\<close> fails on any byte above 127.\<close>

definition decode_ascii :: "bytes \<Rightarrow> exn + string" where
  "decode_ascii b =
     (if list_all (\<lambda>c. (of_char c :: nat) < 128) b then Inr b else Inl UnicodeDecodeError)"

section \<open>The protocol handler\<close>

subsection \<open>Writing a response\<close>

text \<open>
  \<^verbatim>\<open>_write\<close> chooses the wire form by the type of the value, in the order of the
  source. The branch for \<^verbatim>\<open>Error\<close> reads the name \<^verbatim>\<open>error\<close>, which no scope
  binds, before it writes anything, so that branch raises \<^verbatim>\<open>NameError\<close>. The buffer
  reaches the socket only when the whole value has been written to it.
\<close>

definition bulk :: "bytes \<Rightarrow> exn + bytes" where
  "bulk b =
     (case percent_d (int (length b)) of
        Inl e \<Rightarrow> Inl e
      | Inr n \<Rightarrow> Inr (CHR ''$'' # n @ CRLF @ b @ CRLF))"

function (sequential) write_data :: "pyval \<Rightarrow> exn + bytes"
  and write_items :: "pyval list \<Rightarrow> exn + bytes"
  and write_pairs :: "(pyval \<times> pyval) list \<Rightarrow> exn + bytes"
where
  "write_data (PStr s) = bulk (encode_utf8 s)"
| "write_data (PBytes b) = bulk b"
| "write_data (PInt i) =
     (case percent_d i of Inl e \<Rightarrow> Inl e | Inr n \<Rightarrow> Inr (CHR '':'' # n @ CRLF))"
| "write_data (Error m) = Inl NameError"
| "write_data (PList xs) =
     (case percent_d (int (length xs)) of
        Inl e \<Rightarrow> Inl e
      | Inr n \<Rightarrow>
          (case write_items xs of
             Inl e \<Rightarrow> Inl e
           | Inr b \<Rightarrow> Inr (CHR ''*'' # n @ CRLF @ b)))"
| "write_data (PDict ps) =
     (case percent_d (int (length ps)) of
        Inl e \<Rightarrow> Inl e
      | Inr n \<Rightarrow>
          (case write_pairs ps of
             Inl e \<Rightarrow> Inl e
           | Inr b \<Rightarrow> Inr (CHR ''%'' # n @ CRLF @ b)))"
| "write_data PNone = Inr (''$-1'' @ CRLF)"
| "write_items [] = Inr []"
| "write_items (x # xs) =
     (case write_data x of
        Inl e \<Rightarrow> Inl e
      | Inr b \<Rightarrow> (case write_items xs of Inl e \<Rightarrow> Inl e | Inr bs \<Rightarrow> Inr (b @ bs)))"
| "write_pairs [] = Inr []"
| "write_pairs ((k, v) # ps) =
     (case write_data k of
        Inl e \<Rightarrow> Inl e
      | Inr kb \<Rightarrow>
          (case write_data v of
             Inl e \<Rightarrow> Inl e
           | Inr vb \<Rightarrow>
               (case write_pairs ps of Inl e \<Rightarrow> Inl e | Inr bs \<Rightarrow> Inr (kb @ vb @ bs))))"
  by pat_completeness auto

termination
  by (relation "measure (case_sum size (case_sum (size_list size)
        (size_list (size_prod size size))))") auto

definition write_response :: "pyval \<Rightarrow> exn + bytes" where
  "write_response data = write_data data"

subsection \<open>Dictionaries\<close>

text \<open>
  A key of a \<^verbatim>\<open>dict\<close> must be hashable: lists and dictionaries are not, and a named
  tuple is hashable when its field is. Storing under a key that is present replaces
  the value in place; a new key goes to the end. On the values of this model Python's
  key equality is equality of the values.
\<close>

fun hashable :: "pyval \<Rightarrow> bool" where
  "hashable (PBytes b) = True"
| "hashable (PStr s) = True"
| "hashable (PInt i) = True"
| "hashable PNone = True"
| "hashable (PList xs) = False"
| "hashable (PDict ps) = False"
| "hashable (Error m) = hashable m"

type_synonym dict = "(pyval \<times> pyval) list"

definition dict_setitem :: "dict \<Rightarrow> pyval \<Rightarrow> pyval \<Rightarrow> exn + dict" where
  "dict_setitem d k v = (if hashable k then Inr (AList.update k v d) else Inl TypeError)"

fun dict_update :: "dict \<Rightarrow> (pyval \<times> pyval) list \<Rightarrow> exn + dict" where
  "dict_update d [] = Inr d"
| "dict_update d ((k, v) # ps) =
     (case dict_setitem d k v of Inl e \<Rightarrow> Inl e | Inr d' \<Rightarrow> dict_update d' ps)"

text \<open>\<^verbatim>\<open>dict(pairs)\<close> stores the pairs one after the other into an empty dictionary.\<close>

definition py_dict :: "(pyval \<times> pyval) list \<Rightarrow> exn + dict" where
  "py_dict ps = dict_update [] ps"

text \<open>The slice \<^verbatim>\<open>xs[::2]\<close>; \<^verbatim>\<open>xs[1::2]\<close> is the same slice of \<open>drop 1 xs\<close>.\<close>

fun every_second :: "'a list \<Rightarrow> 'a list" where
  "every_second (x # y # zs) = x # every_second zs"
| "every_second xs = xs"

subsection \<open>Reading a request\<close>

text \<open>The expression \<^verbatim>\<open>int(socket_file.readline().rstrip(b'\r\n'))\<close>.\<close>

definition readline_int :: "bytes \<Rightarrow> exn + (int \<times> bytes)" where
  "readline_int s =
     (case readline s of
        (l, r) \<Rightarrow> (case py_int (rstrip CRLF l) of Inl e \<Rightarrow> Inl e | Inr n \<Rightarrow> Inr (n, r)))"

definition handle_simple_string :: "mode \<Rightarrow> bytes \<Rightarrow> exn + (pyval \<times> bytes)" where
  "handle_simple_string system_side s =
     (case readline s of
        (l, r) \<Rightarrow>
          if system_side = server_side then Inr (PBytes (rstrip CRLF l), r)
          else (case decode_ascii (rstrip CRLF l) of
                  Inl e \<Rightarrow> Inl e
                | Inr t \<Rightarrow> Inr (PStr t, r)))"

definition handle_error :: "mode \<Rightarrow> bytes \<Rightarrow> exn + (pyval \<times> bytes)" where
  "handle_error system_side s =
     (case readline s of
        (l, r) \<Rightarrow>
          if system_side = server_side then Inr (Error (PBytes (rstrip CRLF l)), r)
          else (case decode_ascii (rstrip CRLF l) of
                  Inl e \<Rightarrow> Inl e
                | Inr t \<Rightarrow> Inr (Error (PStr t), r)))"

definition handle_integer :: "mode \<Rightarrow> bytes \<Rightarrow> exn + (pyval \<times> bytes)" where
  "handle_integer system_side s =
     (case readline_int s of Inl e \<Rightarrow> Inl e | Inr (n, r) \<Rightarrow> Inr (PInt n, r))"

definition handle_string :: "mode \<Rightarrow> bytes \<Rightarrow> exn + (pyval \<times> bytes)" where
  "handle_string system_side s =
     (case readline_int s of
        Inl e \<Rightarrow> Inl e
      | Inr (len, r) \<Rightarrow>
          if len = - 1 then Inr (PNone, r)
          else (case read (len + 2) r of
                  Inl e \<Rightarrow> Inl e
                | Inr (b, r') \<Rightarrow>
                    if system_side = server_side
                    then Inr (PBytes (take (length b - 2) b), r')
                    else (case decode_ascii (take (length b - 2) b) of
                            Inl e \<Rightarrow> Inl e
                          | Inr t \<Rightarrow> Inr (PStr t, r'))))"

text \<open>
  \<^verbatim>\<open>handle_request\<close>, \<^verbatim>\<open>handle_array\<close> and \<^verbatim>\<open>handle_dict\<close> call each other;
  \<open>handle_elements\<close> is the list comprehension of the last two. The first argument
  is the number of nested calls of \<^verbatim>\<open>handle_request\<close> that the interpreter's stack
  still allows. A count below one reads no element, as \<^verbatim>\<open>range\<close> is empty then.
\<close>

function (sequential) handle_request :: "nat \<Rightarrow> mode \<Rightarrow> bytes \<Rightarrow> exn + (pyval \<times> bytes)"
  and handle_array :: "nat \<Rightarrow> mode \<Rightarrow> bytes \<Rightarrow> exn + (pyval \<times> bytes)"
  and handle_dict :: "nat \<Rightarrow> mode \<Rightarrow> bytes \<Rightarrow> exn + (pyval \<times> bytes)"
  and handle_elements :: "nat \<Rightarrow> mode \<Rightarrow> nat \<Rightarrow> bytes \<Rightarrow> exn + (pyval list \<times> bytes)"
where
  "handle_request 0 system_side s = Inl RecursionError"
| "handle_request (Suc d) system_side s =
     (case s of
        [] \<Rightarrow> Inl Disconnect
      | first_byte # r \<Rightarrow>
          if first_byte = CHR ''+'' then handle_simple_string system_side r
          else if first_byte = CHR ''-'' then handle_error system_side r
          else if first_byte = CHR '':'' then handle_integer system_side r
          else if first_byte = CHR ''$'' then handle_string system_side r
          else if first_byte = CHR ''*'' then handle_array d system_side r
          else if first_byte = CHR ''%'' then handle_dict d system_side r
          else Inl (CommandError ''bad request''))"
| "handle_array d system_side s =
     (case readline_int s of
        Inl e \<Rightarrow> Inl e
      | Inr (num_elements, r) \<Rightarrow>
          (case handle_elements d system_side (nat num_elements) r of
             Inl e \<Rightarrow> Inl e
           | Inr (elements, r') \<Rightarrow> Inr (PList elements, r')))"
| "handle_dict d system_side s =
     (case readline_int s of
        Inl e \<Rightarrow> Inl e
      | Inr (num_items, r) \<Rightarrow>
          (case handle_elements d system_side (nat (num_items * 2)) r of
             Inl e \<Rightarrow> Inl e
           | Inr (elements, r') \<Rightarrow>
               (case py_dict (zip (every_second elements) (every_second (drop 1 elements))) of
                  Inl e \<Rightarrow> Inl e
                | Inr dct \<Rightarrow> Inr (PDict dct, r'))))"
| "handle_elements d system_side 0 s = Inr ([], s)"
| "handle_elements d system_side (Suc n) s =
     (case handle_request d system_side s of
        Inl e \<Rightarrow> Inl e
      | Inr (v, r) \<Rightarrow>
          (case handle_elements d system_side n r of
             Inl e \<Rightarrow> Inl e
           | Inr (vs, r') \<Rightarrow> Inr (v # vs, r')))"
  by pat_completeness auto

termination
  by (relation "measures
        [case_sum (case_sum (\<lambda>p. fst p) (\<lambda>p. fst p)) (case_sum (\<lambda>p. fst p) (\<lambda>p. fst p)),
         case_sum (case_sum (\<lambda>p. 0) (\<lambda>p. 2)) (case_sum (\<lambda>p. 2) (\<lambda>p. 1)),
         case_sum (case_sum (\<lambda>p. 0) (\<lambda>p. 0)) (case_sum (\<lambda>p. 0) (\<lambda>p. fst (snd (snd p))))]")
     auto


section \<open>The server\<close>

subsection \<open>Store operations\<close>

text \<open>
  \<^verbatim>\<open>self._kv\<close> is a dictionary. Each operation returns its result, or the
  exception it raises, together with the dictionary it leaves behind.
\<close>

definition get :: "dict \<Rightarrow> pyval \<Rightarrow> exn + pyval" where
  "get kv key =
     (if hashable key
      then Inr (case map_of kv key of None \<Rightarrow> PNone | Some v \<Rightarrow> v)
      else Inl TypeError)"

definition set_kv :: "dict \<Rightarrow> pyval \<Rightarrow> pyval \<Rightarrow> (exn + pyval) \<times> dict" where
  "set_kv kv key val =
     (case dict_setitem kv key val of
        Inl e \<Rightarrow> (Inl e, kv)
      | Inr kv' \<Rightarrow> (Inr (PInt 1), kv'))"

definition delete :: "dict \<Rightarrow> pyval \<Rightarrow> (exn + pyval) \<times> dict" where
  "delete kv key =
     (if \<not> hashable key then (Inl TypeError, kv)
      else if key \<in> set (map fst kv) then (Inr (PInt 1), AList.delete key kv)
      else (Inr (PInt 0), kv))"

definition flush :: "dict \<Rightarrow> (exn + pyval) \<times> dict" where
  "flush kv = (let kvlen = int (length kv) - 1 in (Inr (PInt kvlen), []))"

fun mget :: "dict \<Rightarrow> pyval list \<Rightarrow> exn + pyval list" where
  "mget kv [] = Inr []"
| "mget kv (key # keys) =
     (case get kv key of
        Inl e \<Rightarrow> Inl e
      | Inr v \<Rightarrow> (case mget kv keys of Inl e \<Rightarrow> Inl e | Inr vs \<Rightarrow> Inr (v # vs)))"

fun mset_loop :: "dict \<Rightarrow> (pyval \<times> pyval) list \<Rightarrow> exn option \<times> dict" where
  "mset_loop kv [] = (None, kv)"
| "mset_loop kv ((key, val) # data) =
     (case dict_setitem kv key val of
        Inl e \<Rightarrow> (Some e, kv)
      | Inr kv' \<Rightarrow> mset_loop kv' data)"

definition mset :: "dict \<Rightarrow> pyval list \<Rightarrow> (exn + pyval) \<times> dict" where
  "mset kv items =
     (let data = zip (every_second items) (every_second (drop 1 items))
      in case mset_loop kv data of
           (Some e, kv') \<Rightarrow> (Inl e, kv')
         | (None, kv') \<Rightarrow> (Inr (PInt (int (length data))), kv'))"

subsection \<open>Dispatch\<close>

text \<open>\<^verbatim>\<open>b.upper()\<close> changes the ASCII lower-case letters only.\<close>

definition upper :: "bytes \<Rightarrow> bytes" where
  "upper b =
     map (\<lambda>c. if 97 \<le> (of_char c :: nat) \<and> (of_char c :: nat) \<le> 122
              then char_of ((of_char c :: nat) - 32) else c) b"

text \<open>\<^verbatim>\<open>split()\<close> without arguments: the maximal runs of bytes that are not white space.\<close>

fun split_acc :: "(char \<Rightarrow> bool) \<Rightarrow> string \<Rightarrow> string \<Rightarrow> string list" where
  "split_acc sp cur [] = (if cur = [] then [] else [cur])"
| "split_acc sp cur (c # cs) =
     (if sp c then (if cur = [] then [] else [cur]) @ split_acc sp [] cs
      else split_acc sp (cur @ [c]) cs)"

definition split :: "(char \<Rightarrow> bool) \<Rightarrow> string \<Rightarrow> string list" where
  "split sp s = split_acc sp [] s"

definition is_space_str :: "char \<Rightarrow> bool" where
  "is_space_str c =
     (is_space c \<or> c \<in> set [CHR 0x1C, CHR 0x1D, CHR 0x1E, CHR 0x1F, CHR 0x85, CHR 0xA0])"

definition commands :: "bytes list" where
  "commands = [''GET'', ''SET'', ''DELETE'', ''FLUSH'', ''MGET'', ''MSET'']"

text \<open>
  Calling the bound method with \<^verbatim>\<open>*data[1:]\<close>: a number of arguments that the
  method's signature does not take raises \<^verbatim>\<open>TypeError\<close> before the method runs.
\<close>

definition call_command :: "bytes \<Rightarrow> dict \<Rightarrow> pyval list \<Rightarrow> (exn + pyval) \<times> dict" where
  "call_command command kv args =
     (if command = ''GET'' then
        (case args of [key] \<Rightarrow> (get kv key, kv) | _ \<Rightarrow> (Inl TypeError, kv))
      else if command = ''SET'' then
        (case args of [key, val] \<Rightarrow> set_kv kv key val | _ \<Rightarrow> (Inl TypeError, kv))
      else if command = ''DELETE'' then
        (case args of [key] \<Rightarrow> delete kv key | _ \<Rightarrow> (Inl TypeError, kv))
      else if command = ''FLUSH'' then
        (case args of [] \<Rightarrow> flush kv | _ \<Rightarrow> (Inl TypeError, kv))
      else if command = ''MGET'' then
        (case mget kv args of Inl e \<Rightarrow> (Inl e, kv) | Inr vs \<Rightarrow> (Inr (PList vs), kv))
      else mset kv args)"

text \<open>
  The first block of \<^verbatim>\<open>get_response\<close>: a request that is not a list is split at
  white space, and a value without \<^verbatim>\<open>split\<close> is refused.
\<close>

definition request_list :: "pyval \<Rightarrow> exn + pyval list" where
  "request_list data =
     (case data of
        PList xs \<Rightarrow> Inr xs
      | PBytes b \<Rightarrow> Inr (map PBytes (split is_space b))
      | PStr t \<Rightarrow> Inr (map PStr (split is_space_str t))
      | _ \<Rightarrow> Inl (CommandError ''Request must be list or simple string.''))"

text \<open>
  Only a byte string has both \<^verbatim>\<open>upper\<close> and \<^verbatim>\<open>decode\<close>. A \<^verbatim>\<open>str\<close> has
  \<^verbatim>\<open>upper\<close>, is never a key of the command table, and fails at \<^verbatim>\<open>decode\<close>; every
  other value fails at \<^verbatim>\<open>upper\<close>.
\<close>

definition get_response :: "dict \<Rightarrow> pyval \<Rightarrow> (exn + pyval) \<times> dict" where
  "get_response kv data =
     (case request_list data of
        Inl e \<Rightarrow> (Inl e, kv)
      | Inr xs \<Rightarrow>
          (case xs of
             [] \<Rightarrow> (Inl (CommandError ''Missing command''), kv)
           | x # args \<Rightarrow>
               (case x of
                  PBytes b \<Rightarrow>
                    (let command = upper b
                     in if command \<notin> set commands then
                          (case decode_ascii command of
                             Inl e \<Rightarrow> (Inl e, kv)
                           | Inr t \<Rightarrow> (Inl (CommandError (''Unrecognized command: '' @ t)), kv))
                        else call_command command kv args)
                | _ \<Rightarrow> (Inl AttributeError, kv))))"

subsection \<open>The connection handler\<close>

text \<open>
  The second \<^verbatim>\<open>try\<close> block of the loop: a \<^verbatim>\<open>CommandError\<close> of
  \<^verbatim>\<open>get_response\<close> becomes the response \<^verbatim>\<open>Error(exc.args[0])\<close>; any other
  exception passes through.
\<close>

definition respond :: "dict \<Rightarrow> pyval \<Rightarrow> (exn + pyval) \<times> dict" where
  "respond kv data =
     (case get_response kv data of
        (Inl (CommandError msg), kv') \<Rightarrow> (Inr (Error (PStr msg)), kv')
      | (r, kv') \<Rightarrow> (r, kv'))"

datatype ending = Closed | Crashed exn

text \<open>What the loop does with the outcome of \<^verbatim>\<open>write_response\<close>.\<close>

datatype step = Stop ending dict | Continue bytes dict bytes

definition after_write :: "dict \<Rightarrow> bytes \<Rightarrow> exn + bytes \<Rightarrow> step" where
  "after_write kv r w = (case w of Inl e \<Rightarrow> Stop (Crashed e) kv | Inr out \<Rightarrow> Continue out kv r)"

text \<open>
  One round of the \<^verbatim>\<open>while True\<close> loop on the remaining input \<open>s\<close>: it stops
  the session, or continues with the bytes sent, the store and the input left.
\<close>

definition serve_once :: "nat \<Rightarrow> dict \<Rightarrow> bytes \<Rightarrow> step" where
  "serve_once d kv s =
     (case handle_request d server_side s of
        Inl e \<Rightarrow> if e = Disconnect then Stop Closed kv else Stop (Crashed e) kv
      | Inr (data, r) \<Rightarrow>
          (case respond kv data of
             (Inl e, kv') \<Rightarrow> Stop (Crashed e) kv'
           | (Inr resp, kv') \<Rightarrow> after_write kv' r (write_response resp)))"


section \<open>How much of the stream a request consumes\<close>

text \<open>
  A request that decodes consumes at least its tag byte. The session loop below
  terminates on every finite input for this reason.
\<close>

lemma readline_append:
  assumes "readline s = (l, r)"
  shows "s = l @ r"
proof (cases "dropWhile (\<lambda>c. c \<noteq> LF) s")
  case Nil
  with assms show ?thesis by (simp add: readline_def)
next
  case (Cons c t)
  have "s = takeWhile (\<lambda>c. c \<noteq> LF) s @ dropWhile (\<lambda>c. c \<noteq> LF) s"
    by simp
  with Cons have "s = takeWhile (\<lambda>c. c \<noteq> LF) s @ c # t"
    by simp
  moreover from assms Cons have "l = takeWhile (\<lambda>c. c \<noteq> LF) s @ [c]" "r = t"
    by (simp_all add: readline_def)
  ultimately show ?thesis by simp
qed

lemma readline_length: "readline s = (l, r) \<Longrightarrow> length r \<le> length s"
  using readline_append[of s l r] by simp

lemma readline_int_length:
  assumes "readline_int s = Inr (n, r)"
  shows "length r \<le> length s"
proof -
  obtain l t where lt: "readline s = (l, t)" by (cases "readline s")
  with assms have "t = r"
    by (simp add: readline_int_def split: sum.splits)
  with readline_length[OF lt] show ?thesis by simp
qed

lemma read_length: "read n s = Inr (b, r) \<Longrightarrow> length r \<le> length s"
  by (simp add: read_def split: if_splits) auto

lemma handle_simple_string_length:
  assumes "handle_simple_string m s = Inr (v, r)"
  shows "length r \<le> length s"
proof -
  obtain l t where lt: "readline s = (l, t)" by (cases "readline s")
  with assms have "t = r"
    by (simp add: handle_simple_string_def split: if_splits sum.splits)
  with readline_length[OF lt] show ?thesis by simp
qed

lemma handle_error_length:
  assumes "handle_error m s = Inr (v, r)"
  shows "length r \<le> length s"
proof -
  obtain l t where lt: "readline s = (l, t)" by (cases "readline s")
  with assms have "t = r"
    by (simp add: handle_error_def split: if_splits sum.splits)
  with readline_length[OF lt] show ?thesis by simp
qed

lemma handle_integer_length:
  assumes "handle_integer m s = Inr (v, r)"
  shows "length r \<le> length s"
proof (cases "readline_int s")
  case (Inl e)
  with assms show ?thesis by (simp add: handle_integer_def)
next
  case (Inr nt)
  obtain n t where nt: "nt = (n, t)" by (cases nt)
  with assms Inr have "t = r" by (simp add: handle_integer_def)
  with readline_int_length[of s n t] Inr nt show ?thesis by simp
qed

lemma handle_string_length:
  assumes "handle_string m s = Inr (v, r)"
  shows "length r \<le> length s"
proof (cases "readline_int s")
  case (Inl e)
  with assms show ?thesis by (simp add: handle_string_def)
next
  case (Inr nt)
  obtain n t where nt: "nt = (n, t)" by (cases nt)
  from readline_int_length[of s n t] Inr nt have ts: "length t \<le> length s" by simp
  show ?thesis
  proof (cases "n = - 1")
    case True
    with assms Inr nt have "t = r" by (simp add: handle_string_def)
    with ts show ?thesis by simp
  next
    case False
    show ?thesis
    proof (cases "read (n + 2) t")
      case (Inl e)
      with assms \<open>readline_int s = Inr nt\<close> nt False show ?thesis
        by (simp add: handle_string_def)
    next
      case (Inr bt)
      obtain b t' where bt: "bt = (b, t')" by (cases bt)
      with assms \<open>readline_int s = Inr nt\<close> nt False Inr have "t' = r"
        by (simp add: handle_string_def split: if_splits sum.splits)
      with read_length[of "n + 2" t b t'] Inr bt ts show ?thesis by simp
    qed
  qed
qed

lemma handle_request_nil: "handle_request (Suc d) m [] = Inl Disconnect"
  by simp

lemma handle_request_plus:
  "handle_request (Suc d) m (CHR ''+'' # t) = handle_simple_string m t"
  by simp

lemma handle_request_minus:
  "handle_request (Suc d) m (CHR ''-'' # t) = handle_error m t"
  by simp

lemma handle_request_colon:
  "handle_request (Suc d) m (CHR '':'' # t) = handle_integer m t"
  by simp

lemma handle_request_dollar:
  "handle_request (Suc d) m (CHR ''$'' # t) = handle_string m t"
  by simp

lemma handle_request_star:
  "handle_request (Suc d) m (CHR ''*'' # t) = handle_array d m t"
  by simp

lemma handle_request_percent:
  "handle_request (Suc d) m (CHR ''%'' # t) = handle_dict d m t"
  by simp

lemma handle_request_other:
  "c \<noteq> CHR ''+'' \<Longrightarrow> c \<noteq> CHR ''-'' \<Longrightarrow> c \<noteq> CHR '':'' \<Longrightarrow> c \<noteq> CHR ''$'' \<Longrightarrow>
   c \<noteq> CHR ''*'' \<Longrightarrow> c \<noteq> CHR ''%'' \<Longrightarrow>
   handle_request (Suc d) m (c # t) = Inl (CommandError ''bad request'')"
  by (simp only: handle_request.simps list.case if_False)

lemma handle_elements_SucE:
  assumes "handle_elements d m (Suc n) s = Inr (vs, r)"
  obtains x t xs where "handle_request d m s = Inr (x, t)"
    and "handle_elements d m n t = Inr (xs, r)" and "vs = x # xs"
proof (cases "handle_request d m s")
  case (Inl e)
  with assms show ?thesis by simp
next
  case (Inr xt)
  obtain x t where xt: "xt = (x, t)" by (cases xt)
  show ?thesis
  proof (cases "handle_elements d m n t")
    case (Inl e)
    with assms Inr xt show ?thesis by simp
  next
    case (Inr xsr)
    obtain xs r' where xsr: "xsr = (xs, r')" by (cases xsr)
    from assms \<open>handle_request d m s = Inr xt\<close> xt Inr xsr
    have "vs = x # xs" "r' = r" by simp_all
    with that \<open>handle_request d m s = Inr xt\<close> xt Inr xsr show ?thesis by simp
  qed
qed

lemma handle_array_InrE:
  assumes "handle_array d m s = Inr (v, r)"
  obtains n t es where "readline_int s = Inr (n, t)"
    and "handle_elements d m (nat n) t = Inr (es, r)" and "v = PList es"
proof (cases "readline_int s")
  case (Inl e)
  with assms show ?thesis by simp
next
  case (Inr nt)
  obtain n t where nt: "nt = (n, t)" by (cases nt)
  show ?thesis
  proof (cases "handle_elements d m (nat n) t")
    case (Inl e)
    with assms Inr nt show ?thesis by simp
  next
    case (Inr esr)
    obtain es r' where esr: "esr = (es, r')" by (cases esr)
    from assms \<open>readline_int s = Inr nt\<close> nt Inr esr
    have "v = PList es" "r' = r" by simp_all
    with that \<open>readline_int s = Inr nt\<close> nt Inr esr show ?thesis by simp
  qed
qed

lemma handle_dict_InrE:
  assumes "handle_dict d m s = Inr (v, r)"
  obtains n t es dct where "readline_int s = Inr (n, t)"
    and "handle_elements d m (nat (n * 2)) t = Inr (es, r)"
    and "py_dict (zip (every_second es) (every_second (drop 1 es))) = Inr dct"
    and "v = PDict dct"
proof (cases "readline_int s")
  case (Inl e)
  with assms show ?thesis by simp
next
  case (Inr nt)
  obtain n t where nt: "nt = (n, t)" by (cases nt)
  show ?thesis
  proof (cases "handle_elements d m (nat (n * 2)) t")
    case (Inl e)
    with assms Inr nt show ?thesis by simp
  next
    case (Inr esr)
    obtain es r' where esr: "esr = (es, r')" by (cases esr)
    show ?thesis
    proof (cases "py_dict (zip (every_second es) (every_second (drop 1 es)))")
      case (Inl e)
      with assms \<open>readline_int s = Inr nt\<close> nt Inr esr show ?thesis by simp
    next
      case (Inr dct)
      from assms \<open>readline_int s = Inr nt\<close> nt
        \<open>handle_elements d m (nat (n * 2)) t = Inr esr\<close> esr Inr
      have "v = PDict dct" "r' = r" by simp_all
      with that \<open>readline_int s = Inr nt\<close> nt
        \<open>handle_elements d m (nat (n * 2)) t = Inr esr\<close> esr Inr
      show ?thesis by simp
    qed
  qed
qed

lemma handle_elements_length:
  assumes IH: "\<forall>s v r. handle_request d m s = Inr (v, r) \<longrightarrow> length r < length s"
  shows "handle_elements d m n s = Inr (vs, r) \<Longrightarrow> length r \<le> length s"
proof (induction n arbitrary: s vs r)
  case 0
  then show ?case by simp
next
  case (Suc n)
  from Suc.prems obtain x t xs where
    a: "handle_request d m s = Inr (x, t)" and
    b: "handle_elements d m n t = Inr (xs, r)"
    by (rule handle_elements_SucE)
  from IH a have "length t < length s" by blast
  with Suc.IH[OF b] show ?case by simp
qed

lemma handle_array_length:
  assumes IH: "\<forall>s v r. handle_request d m s = Inr (v, r) \<longrightarrow> length r < length s"
    and p: "handle_array d m s = Inr (v, r)"
  shows "length r \<le> length s"
proof -
  from p obtain n t es where
    a: "readline_int s = Inr (n, t)" and
    b: "handle_elements d m (nat n) t = Inr (es, r)"
    by (rule handle_array_InrE)
  from handle_elements_length[OF IH b] readline_int_length[OF a] show ?thesis by simp
qed

lemma handle_dict_length:
  assumes IH: "\<forall>s v r. handle_request d m s = Inr (v, r) \<longrightarrow> length r < length s"
    and p: "handle_dict d m s = Inr (v, r)"
  shows "length r \<le> length s"
proof -
  from p obtain n t es where
    a: "readline_int s = Inr (n, t)" and
    b: "handle_elements d m (nat (n * 2)) t = Inr (es, r)"
    using handle_dict_InrE[of d m s v r thesis] by blast
  from handle_elements_length[OF IH b] readline_int_length[OF a] show ?thesis by simp
qed

lemma handle_request_length_all:
  "\<forall>s v r. handle_request d m s = Inr (v, r) \<longrightarrow> length r < length s"
proof (induction d)
  case 0
  show ?case by simp
next
  case (Suc d)
  show ?case
  proof (intro allI impI)
    fix s v r
    assume p: "handle_request (Suc d) m s = Inr (v, r)"
    then obtain c t where s: "s = c # t"
      by (cases s) (simp_all only: handle_request_nil sum.distinct)
    consider "c = CHR ''+''" | "c = CHR ''-''" | "c = CHR '':''" | "c = CHR ''$''"
      | "c = CHR ''*''" | "c = CHR ''%''"
      | "c \<noteq> CHR ''+''" "c \<noteq> CHR ''-''" "c \<noteq> CHR '':''" "c \<noteq> CHR ''$''"
        "c \<noteq> CHR ''*''" "c \<noteq> CHR ''%''"
      by blast
    then show "length r < length s"
    proof cases
      case 1
      with p s have "handle_simple_string m t = Inr (v, r)"
        by (simp only: handle_request_plus)
      from handle_simple_string_length[OF this] s show ?thesis by simp
    next
      case 2
      with p s have "handle_error m t = Inr (v, r)"
        by (simp only: handle_request_minus)
      from handle_error_length[OF this] s show ?thesis by simp
    next
      case 3
      with p s have "handle_integer m t = Inr (v, r)"
        by (simp only: handle_request_colon)
      from handle_integer_length[OF this] s show ?thesis by simp
    next
      case 4
      with p s have "handle_string m t = Inr (v, r)"
        by (simp only: handle_request_dollar)
      from handle_string_length[OF this] s show ?thesis by simp
    next
      case 5
      with p s have h: "handle_array d m t = Inr (v, r)"
        by (simp only: handle_request_star)
      from handle_array_length[OF Suc.IH h] s show ?thesis by simp
    next
      case 6
      with p s have h: "handle_dict d m t = Inr (v, r)"
        by (simp only: handle_request_percent)
      from handle_dict_length[OF Suc.IH h] s show ?thesis by simp
    next
      case 7
      from handle_request_other[OF 7, of d m t] p s show ?thesis
        by (simp only: sum.distinct)
    qed
  qed
qed

lemma handle_request_length:
  "handle_request d m s = Inr (v, r) \<Longrightarrow> length r < length s"
  using handle_request_length_all by blast

text \<open>A round that goes on has taken at least one byte from the stream.\<close>

lemma serve_once_length:
  assumes "serve_once d kv s = Continue out kv' r"
  shows "length r < length s"
proof (cases "handle_request d server_side s")
  case (Inl e)
  with assms show ?thesis by (simp add: serve_once_def split: if_splits)
next
  case (Inr vt)
  obtain v t where vt: "vt = (v, t)" by (cases vt)
  obtain res kv1 where rs: "respond kv v = (res, kv1)" by (cases "respond kv v")
  show ?thesis
  proof (cases res)
    case (Inl e)
    with assms Inr vt rs show ?thesis by (simp add: serve_once_def)
  next
    case (Inr resp)
    with assms \<open>handle_request d server_side s = Inr vt\<close> vt rs have "t = r"
      by (simp add: serve_once_def after_write_def split: sum.splits)
    with handle_request_length[of d server_side s v t]
      \<open>handle_request d server_side s = Inr vt\<close> vt
    show ?thesis by simp
  qed
qed

text \<open>
  \<^verbatim>\<open>connection_handler\<close>: the rounds of the loop, one after the other, until one
  stops the session. The result is everything sent to the peer, the store at the end,
  and how the session ended.
\<close>

function connection_handler :: "nat \<Rightarrow> dict \<Rightarrow> bytes \<Rightarrow> bytes \<times> dict \<times> ending" where
  "connection_handler d kv s =
     (case serve_once d kv s of
        Stop fin kv' \<Rightarrow> ([], kv', fin)
      | Continue out kv' r \<Rightarrow>
          (case connection_handler d kv' r of
             (outs, kv'', fin) \<Rightarrow> (out @ outs, kv'', fin)))"
  by pat_completeness auto

termination
  by (relation "measure (\<lambda>(d, kv, s). length s)") (simp_all add: serve_once_length)

declare connection_handler.simps [simp del]

section \<open>The encoder and the store\<close>

text \<open>
  C2. The claim: for an \<^verbatim>\<open>Error\<close> value with message \<open>m\<close> the encoder produces
  the tag byte \<^verbatim>\<open>-\<close>, the bytes of \<open>m\<close> and CR LF. The code does not: for every
  message, \<^verbatim>\<open>_write\<close> raises \<^verbatim>\<open>NameError\<close> in the branch for \<^verbatim>\<open>Error\<close>
  and \<^verbatim>\<open>write_response\<close> sends nothing.
\<close>

theorem write_response_Error_NameError:
  "write_response (Error m) = Inl NameError"
  by (simp add: write_response_def)

text \<open>
  C3. On every store, \<^verbatim>\<open>flush\<close> leaves the store empty and returns the number of
  entries it held minus one, called directly and through the dispatch of the request
  \<^verbatim>\<open>[b'FLUSH']\<close>. On the empty store the result is \<open>-1\<close>.
\<close>

theorem flush_count_minus_one:
  "flush kv = (Inr (PInt (int (length kv) - 1)), []) \<and>
   get_response kv (PList [PBytes ''FLUSH'']) = (Inr (PInt (int (length kv) - 1)), [])"
  by (simp add: flush_def get_response_def request_list_def upper_def commands_def
        call_command_def)

section \<open>Dispatch\<close>

lemma upper_ascii:
  "list_all (\<lambda>c. (of_char c :: nat) < 128) b \<Longrightarrow>
   list_all (\<lambda>c. (of_char c :: nat) < 128) (upper b)"
  by (induction b) (auto simp: upper_def)

lemma get_response_PList_PBytes:
  "get_response kv (PList (PBytes name # args)) =
     (if upper name \<notin> set commands then
        (case decode_ascii (upper name) of
           Inl e \<Rightarrow> (Inl e, kv)
         | Inr t \<Rightarrow> (Inl (CommandError (''Unrecognized command: '' @ t)), kv))
      else call_command (upper name) kv args)"
  by (simp add: get_response_def request_list_def Let_def)

text \<open>
  C7, as amended. When the request is a list, or a byte string split at white space,
  whose first token is a byte string of ASCII bytes with an upper-case form that is
  none of the six command names, dispatch fails with \<^verbatim>\<open>CommandError\<close>. The message
  is exactly \<^verbatim>\<open>Unrecognized command: \<close>, with a capital U, followed by the upper-case
  form of the token, and the store is left as it was.
\<close>

theorem unknown_command_message:
  assumes "request_list data = Inr (PBytes name # args)"
    and "upper name \<notin> set commands"
    and "list_all (\<lambda>c. (of_char c :: nat) < 128) name"
  shows "get_response kv data =
           (Inl (CommandError (''Unrecognized command: '' @ upper name)), kv)"
proof -
  from assms(3) have "decode_ascii (upper name) = Inr (upper name)"
    by (simp add: decode_ascii_def upper_ascii)
  with assms(1,2) show ?thesis
    by (simp add: get_response_def Let_def)
qed

theorem unknown_command_message_witness:
  "request_list (PBytes ''foo bar'') = Inr (PBytes ''foo'' # [PBytes ''bar'']) \<and>
   get_response [] (PBytes ''foo bar'') =
     (Inl (CommandError ''Unrecognized command: FOO''), [])"
proof -
  have a: "request_list (PBytes ''foo bar'') = Inr (PBytes ''foo'' # [PBytes ''bar''])"
    by code_simp
  have b: "upper ''foo'' \<notin> set commands" by code_simp
  have c: "list_all (\<lambda>c. (of_char c :: nat) < 128) ''foo''" by code_simp
  have d: "upper ''foo'' = ''FOO''" by code_simp
  from unknown_command_message[OF a b c, of "[]"] a d show ?thesis by simp
qed

text \<open>
  C7 as the claim states it fails. For the command \<^verbatim>\<open>FOO\<close> the message starts with
  a capital U, so it is not \<^verbatim>\<open>unrecognized command: FOO\<close>. The claim also speaks of
  every first token: one with a byte above 127 ends in \<^verbatim>\<open>UnicodeDecodeError\<close> and
  one that is an integer in \<^verbatim>\<open>AttributeError\<close>.
\<close>

theorem unknown_command_counterexample:
  "get_response [] (PList [PBytes ''FOO'']) =
     (Inl (CommandError ''Unrecognized command: FOO''), []) \<and>
   fst (get_response [] (PList [PBytes ''FOO''])) \<noteq>
     Inl (CommandError ''unrecognized command: FOO'') \<and>
   get_response [] (PList [PBytes [CHR 0xE9]]) = (Inl UnicodeDecodeError, []) \<and>
   get_response [] (PList [PInt 7]) = (Inl AttributeError, [])"
  by code_simp

lemma case_one_arg:
  "length args \<noteq> 1 \<Longrightarrow> (case args of [] \<Rightarrow> d | [key] \<Rightarrow> f key | key # a # list \<Rightarrow> d) = d"
  by (cases args) (simp_all split: list.split)

lemma case_two_args:
  "length args \<noteq> 2 \<Longrightarrow>
   (case args of [] \<Rightarrow> d | [key] \<Rightarrow> d | [key, val] \<Rightarrow> f key val | key # val # a # list \<Rightarrow> d) = d"
  by (cases args) (auto split: list.split)

lemma case_no_args:
  "args \<noteq> [] \<Longrightarrow> (case args of [] \<Rightarrow> f | a # list \<Rightarrow> d) = d"
  by (cases args) simp_all

lemma call_command_wrong_arity:
  assumes "command = ''GET'' \<and> length args \<noteq> 1 \<or> command = ''SET'' \<and> length args \<noteq> 2 \<or>
           command = ''DELETE'' \<and> length args \<noteq> 1 \<or> command = ''FLUSH'' \<and> args \<noteq> []"
  shows "call_command command kv args = (Inl TypeError, kv)"
proof -
  consider "command = ''GET''" "length args \<noteq> 1" | "command = ''SET''" "length args \<noteq> 2"
    | "command = ''DELETE''" "length args \<noteq> 1" | "command = ''FLUSH''" "args \<noteq> []"
    using assms by blast
  then show ?thesis
  proof cases
    case 1
    then show ?thesis by (simp add: call_command_def case_one_arg)
  next
    case 2
    then show ?thesis by (simp add: call_command_def case_two_args)
  next
    case 3
    then show ?thesis by (simp add: call_command_def case_one_arg)
  next
    case 4
    then show ?thesis by (simp add: call_command_def case_no_args)
  qed
qed

lemma get_response_request_list:
  "request_list data = Inr (PBytes name # args) \<Longrightarrow> upper name \<in> set commands \<Longrightarrow>
   get_response kv data = call_command (upper name) kv args"
  by (simp add: get_response_def Let_def)

lemma serve_once_crash:
  assumes "handle_request d server_side s = Inr (data, r)"
    and "respond kv data = (Inl e, kv')"
  shows "serve_once d kv s = Stop (Crashed e) kv'"
  using assms by (simp add: serve_once_def)

lemma connection_handler_Stop:
  "serve_once d kv s = Stop fin kv' \<Longrightarrow> connection_handler d kv s = ([], kv', fin)"
  by (subst connection_handler.simps) simp

text \<open>
  C8, as amended. \<^verbatim>\<open>GET\<close> and \<^verbatim>\<open>DELETE\<close> take one argument, \<^verbatim>\<open>SET\<close> two and
  \<^verbatim>\<open>FLUSH\<close> none. Invoked with any other number of arguments, in a list request or
  in a line split at white space, the call raises \<^verbatim>\<open>TypeError\<close> and leaves the store
  as it was. No code maps this error to a \<^verbatim>\<open>CommandError\<close>: the connection handler
  does not catch it, and the session whose next request is such an invocation ends
  with \<^verbatim>\<open>TypeError\<close> and nothing sent.
\<close>

theorem wrong_arity_raises_TypeError:
  assumes "request_list data = Inr (PBytes name # args)"
    and "upper name = ''GET'' \<and> length args \<noteq> 1 \<or> upper name = ''SET'' \<and> length args \<noteq> 2 \<or>
         upper name = ''DELETE'' \<and> length args \<noteq> 1 \<or> upper name = ''FLUSH'' \<and> args \<noteq> []"
  shows "get_response kv data = (Inl TypeError, kv) \<and>
         respond kv data = (Inl TypeError, kv) \<and>
         (handle_request d server_side s = Inr (data, r) \<longrightarrow>
            serve_once d kv s = Stop (Crashed TypeError) kv \<and>
            connection_handler d kv s = ([], kv, Crashed TypeError))"
proof -
  from assms(2) have "upper name \<in> set commands"
    by (auto simp: commands_def)
  with call_command_wrong_arity[OF assms(2), of kv] assms(1)
  have g: "get_response kv data = (Inl TypeError, kv)"
    by (simp add: get_response_request_list)
  then have r: "respond kv data = (Inl TypeError, kv)"
    by (simp add: respond_def)
  have "serve_once d kv s = Stop (Crashed TypeError) kv \<and>
        connection_handler d kv s = ([], kv, Crashed TypeError)"
    if h: "handle_request d server_side s = Inr (data, r)"
    using serve_once_crash[OF h r] connection_handler_Stop by simp
  with g r show ?thesis by blast
qed

theorem wrong_arity_raises_TypeError_witness:
  "get_response [] (PBytes ''get'') = (Inl TypeError, []) \<and>
   respond [] (PBytes ''get'') = (Inl TypeError, []) \<and>
   serve_once 2 [] (''+get'' @ CRLF) = Stop (Crashed TypeError) [] \<and>
   connection_handler 2 [] (''+get'' @ CRLF) = ([], [], Crashed TypeError)"
proof -
  have q: "request_list (PBytes ''get'') = Inr (PBytes ''get'' # [])" by code_simp
  have u: "upper ''get'' = ''GET''" by code_simp
  then have a: "upper ''get'' = ''GET'' \<and> length ([] :: pyval list) \<noteq> 1 \<or>
      upper ''get'' = ''SET'' \<and> length ([] :: pyval list) \<noteq> 2 \<or>
      upper ''get'' = ''DELETE'' \<and> length ([] :: pyval list) \<noteq> 1 \<or>
      upper ''get'' = ''FLUSH'' \<and> ([] :: pyval list) \<noteq> []"
    by simp
  have h: "handle_request 2 server_side (''+get'' @ CRLF) = Inr (PBytes ''get'', [])"
    by code_simp
  from wrong_arity_raises_TypeError[OF q a, of "[]" 2 "''+get'' @ CRLF" "[]"] h
  show ?thesis by simp
qed

text \<open>
  C8 as the claim states it fails: \<^verbatim>\<open>GET\<close> with no argument and with two arguments
  raises \<^verbatim>\<open>TypeError\<close>, and a session that sends \<^verbatim>\<open>GET\<close> without a key ends with
  that error and nothing sent to the peer.
\<close>

theorem wrong_arity_counterexample:
  "get_response [] (PList [PBytes ''GET'']) = (Inl TypeError, []) \<and>
   get_response [] (PList [PBytes ''GET'', PBytes ''a'', PBytes ''b'']) = (Inl TypeError, []) \<and>
   connection_handler 2 [] (''*1'' @ CRLF @ ''$3'' @ CRLF @ ''GET'' @ CRLF) =
     ([], [], Crashed TypeError)"
  by code_simp

section \<open>The session\<close>

text \<open>
  C1. The claim: a \<^verbatim>\<open>CommandError\<close> of the decoder or of the dispatch is caught,
  an \<^verbatim>\<open>Error\<close> response with its message goes to the peer and the loop goes on. The
  code does not do this. Whenever the dispatch of a decoded request raises
  \<^verbatim>\<open>CommandError\<close>, the handler catches it and builds the \<^verbatim>\<open>Error\<close> value, but
  \<^verbatim>\<open>write_response\<close> raises \<^verbatim>\<open>NameError\<close> on it: nothing is sent and the session
  ends there with that exception, whatever input follows.
\<close>

theorem dispatch_CommandError_crashes_session:
  assumes "handle_request d server_side s = Inr (data, r)"
    and "get_response kv data = (Inl (CommandError msg), kv')"
  shows "respond kv data = (Inr (Error (PStr msg)), kv') \<and>
         write_response (Error (PStr msg)) = Inl NameError \<and>
         serve_once d kv s = Stop (Crashed NameError) kv' \<and>
         connection_handler d kv s = ([], kv', Crashed NameError)"
proof -
  from assms(2) have r: "respond kv data = (Inr (Error (PStr msg)), kv')"
    by (simp add: respond_def)
  have w: "write_response (Error (PStr msg)) = Inl NameError"
    by (simp add: write_response_def)
  from assms(1) r w have s: "serve_once d kv s = Stop (Crashed NameError) kv'"
    by (simp add: serve_once_def after_write_def)
  from r w s connection_handler_Stop[OF s] show ?thesis by simp
qed

theorem dispatch_CommandError_crashes_session_witness:
  "connection_handler 2 []
     (''*1'' @ CRLF @ ''$3'' @ CRLF @ ''FOO'' @ CRLF @
      ''*2'' @ CRLF @ ''$3'' @ CRLF @ ''GET'' @ CRLF @ ''$1'' @ CRLF @ ''k'' @ CRLF) =
     ([], [], Crashed NameError)"
proof -
  have h: "handle_request 2 server_side
     (''*1'' @ CRLF @ ''$3'' @ CRLF @ ''FOO'' @ CRLF @
      ''*2'' @ CRLF @ ''$3'' @ CRLF @ ''GET'' @ CRLF @ ''$1'' @ CRLF @ ''k'' @ CRLF) =
     Inr (PList [PBytes ''FOO''],
          ''*2'' @ CRLF @ ''$3'' @ CRLF @ ''GET'' @ CRLF @ ''$1'' @ CRLF @ ''k'' @ CRLF)"
    by code_simp
  have g: "get_response [] (PList [PBytes ''FOO'']) =
             (Inl (CommandError ''Unrecognized command: FOO''), [])"
    by code_simp
  from dispatch_CommandError_crashes_session[OF h g] show ?thesis by simp
qed

text \<open>
  The first \<^verbatim>\<open>try\<close> block of the loop catches \<^verbatim>\<open>Disconnect\<close> only: an unknown tag
  byte (\<^verbatim>\<open>CommandError\<close>) and a malformed integer line (\<^verbatim>\<open>ValueError\<close>) end the
  session with nothing sent; the end of the input closes it.
\<close>

lemma decoder_errors_end_session:
  "connection_handler 2 [] ''!'' = ([], [], Crashed (CommandError ''bad request'')) \<and>
   connection_handler 2 [] ('':x'' @ CRLF) = ([], [], Crashed ValueError) \<and>
   connection_handler 2 [] [] = ([], [], Closed)"
  by code_simp

section \<open>Storing several pairs\<close>

text \<open>
  The pairs \<open>(xs[0], xs[1]), (xs[2], xs[3]), \<dots>\<close> of a list, in order; a last element
  without a partner belongs to no pair. \<open>store_pairs\<close> stores pairs into a dictionary
  one after the other, a later pair overwriting an earlier one with the same key.
\<close>

fun pairs_of :: "'a list \<Rightarrow> ('a \<times> 'a) list" where
  "pairs_of (k # v # rest) = (k, v) # pairs_of rest"
| "pairs_of rest = []"

definition store_pairs :: "dict \<Rightarrow> (pyval \<times> pyval) list \<Rightarrow> dict" where
  "store_pairs kv ps = fold (\<lambda>p d. AList.update (fst p) (snd p) d) ps kv"

lemma zip_every_second:
  "zip (every_second xs) (every_second (drop 1 xs)) = pairs_of xs"
proof (induction xs rule: pairs_of.induct)
  case (1 k v rest)
  then show ?case by (cases rest) simp_all
qed simp_all

lemma length_pairs_of: "length (pairs_of xs) = length xs div 2"
  by (induction xs rule: pairs_of.induct) simp_all

lemma pairs_of_butlast:
  "odd (length xs) \<Longrightarrow> pairs_of (butlast xs) = pairs_of xs"
proof (induction xs rule: pairs_of.induct)
  case (1 k v rest)
  then have "rest \<noteq> []" by auto
  with 1 show ?case by simp
qed simp_all

lemma map_fst_pairs_of:
  "even (length xs) \<Longrightarrow> map fst (pairs_of xs) = every_second xs"
  by (induction xs rule: pairs_of.induct) simp_all

lemma mset_loop_hashable:
  "list_all hashable (map fst ps) \<Longrightarrow> mset_loop kv ps = (None, store_pairs kv ps)"
  by (induction ps arbitrary: kv) (auto simp: store_pairs_def dict_setitem_def)

lemma mset_loop_unhashable:
  "\<not> list_all hashable (map fst ps) \<Longrightarrow> fst (mset_loop kv ps) = Some TypeError"
  by (induction ps arbitrary: kv) (auto simp: dict_setitem_def)

lemma dict_update_hashable:
  "list_all hashable (map fst ps) \<Longrightarrow> dict_update kv ps = Inr (store_pairs kv ps)"
  by (induction ps arbitrary: kv) (auto simp: store_pairs_def dict_setitem_def)

lemma dict_update_unhashable:
  "\<not> list_all hashable (map fst ps) \<Longrightarrow> dict_update kv ps = Inl TypeError"
  by (induction ps arbitrary: kv) (auto simp: dict_setitem_def)

text \<open>
  C9, as amended. For an argument list of odd length \<open>n\<close> whose keys, the arguments
  at the positions \<open>0, 2, \<dots>, n - 3\<close>, are hashable, \<^verbatim>\<open>mset\<close> raises no error: it
  stores the \<open>n div 2\<close> pairs from left to right, returns \<open>n div 2\<close>, and does what it
  does on the list without its last argument.
\<close>

theorem mset_odd_ignores_last:
  assumes "odd (length items)"
    and "list_all hashable (map fst (pairs_of items))"
  shows "mset kv items =
           (Inr (PInt (int (length items div 2))), store_pairs kv (pairs_of items)) \<and>
         mset kv items = mset kv (butlast items) \<and>
         length (pairs_of items) = length items div 2"
proof -
  have a: "mset kv xs = (Inr (PInt (int (length xs div 2))), store_pairs kv (pairs_of xs))"
    if "list_all hashable (map fst (pairs_of xs))" for xs
    using that unfolding mset_def Let_def zip_every_second
    by (simp add: mset_loop_hashable length_pairs_of)
  from assms(1) have b: "pairs_of (butlast items) = pairs_of items"
    by (rule pairs_of_butlast)
  from assms(1) have "length (butlast items) div 2 = length items div 2"
    by (cases items rule: rev_cases) auto
  with a[of items] a[of "butlast items"] assms(2) b show ?thesis
    by (simp add: length_pairs_of)
qed

theorem mset_odd_ignores_last_witness:
  "mset [] [PBytes ''a'', PBytes ''1'', PBytes ''b''] =
     (Inr (PInt 1), [(PBytes ''a'', PBytes ''1'')]) \<and>
   mset [] [PBytes ''a'', PBytes ''1'', PBytes ''b''] = mset [] [PBytes ''a'', PBytes ''1'']"
proof -
  have o: "odd (length [PBytes ''a'', PBytes ''1'', PBytes ''b''])" by simp
  have h: "list_all hashable (map fst (pairs_of [PBytes ''a'', PBytes ''1'', PBytes ''b'']))"
    by simp
  note t = mset_odd_ignores_last[OF o h, of "[]"]
  from t have a: "mset [] [PBytes ''a'', PBytes ''1'', PBytes ''b''] =
     (Inr (PInt 1), [(PBytes ''a'', PBytes ''1'')])"
    by (simp add: store_pairs_def)
  from t[THEN conjunct2, THEN conjunct1]
  have b: "mset [] [PBytes ''a'', PBytes ''1'', PBytes ''b''] =
     mset [] [PBytes ''a'', PBytes ''1'']"
    by simp
  from a b show ?thesis by (rule conjI)
qed

text \<open>
  C9 as the claim states it fails: a list of three arguments whose first is a list
  cannot be stored under that key, and \<^verbatim>\<open>mset\<close> raises \<^verbatim>\<open>TypeError\<close>, called
  directly and through the dispatch of \<^verbatim>\<open>MSET\<close>.
\<close>

theorem mset_odd_counterexample:
  "mset [] [PList [], PBytes ''1'', PBytes ''b''] = (Inl TypeError, []) \<and>
   get_response [] (PList [PBytes ''MSET'', PList [], PBytes ''1'', PBytes ''b'']) =
     (Inl TypeError, [])"
  by code_simp

section \<open>Decoding a map\<close>

lemma handle_elements_count:
  "handle_elements d m n s = Inr (es, r) \<Longrightarrow> length es = n"
proof (induction n arbitrary: s es r)
  case 0
  then show ?case by simp
next
  case (Suc n)
  from Suc.prems obtain x t xs where
    b: "handle_elements d m n t = Inr (xs, r)" and c: "es = x # xs"
    by (rule handle_elements_SucE)
  from Suc.IH[OF b] c show ?case by simp
qed

lemma handle_dict_pairs:
  assumes "readline_int s = Inr (n, t)"
    and "handle_elements d m (nat (n * 2)) t = Inr (es, r)"
  shows "handle_dict d m s =
           (case py_dict (pairs_of es) of Inl e \<Rightarrow> Inl e | Inr dct \<Rightarrow> Inr (PDict dct, r))"
  using assms
  by (simp only: handle_dict.simps zip_every_second sum.case prod.case)

lemma distinct_store_pairs:
  "distinct (map fst kv) \<Longrightarrow> distinct (map fst (store_pairs kv ps))"
  unfolding store_pairs_def
  by (induction ps arbitrary: kv) (simp_all add: distinct_update)

lemma map_of_store_pairs:
  "map_of (store_pairs kv ps) = map_of (rev ps @ kv)"
  unfolding store_pairs_def
proof (induction ps arbitrary: kv)
  case Nil
  show ?case by simp
next
  case (Cons p ps)
  have "map_of (rev ps @ AList.update (fst p) (snd p) kv) = map_of (rev ps @ p # kv)"
    by (cases p) (simp add: map_of_append update_conv')
  with Cons show ?case by simp
qed

lemma keys_store_pairs:
  "set (map fst (store_pairs kv ps)) = set (map fst kv) \<union> set (map fst ps)"
proof -
  have "dom (map_of (store_pairs kv ps)) = dom (map_of (rev ps @ kv))"
    by (simp only: map_of_store_pairs)
  then show ?thesis by (auto simp: dom_map_of_conv_image_fst)
qed

lemma pairs_of_nth:
  "i < length xs div 2 \<Longrightarrow> pairs_of xs ! i = (xs ! (2 * i), xs ! (2 * i + 1))"
proof (induction xs arbitrary: i rule: pairs_of.induct)
  case (1 k v rest)
  then show ?case by (cases i) simp_all
qed simp_all

text \<open>
  C6, as amended. When the count line of a \<^verbatim>\<open>%\<close> value has been read and its
  \<open>2n\<close> elements have decoded to \<open>es\<close>, element \<open>2i\<close> is paired with element
  \<open>2i + 1\<close> in decode order and the pairs are stored into a dictionary one after the
  other. With hashable keys the result is that dictionary: its keys are the keys of
  the pairs, each of them once, and a key that occurs in several pairs keeps the value
  of the last of them. The duplicate pairs of the wire form are not preserved.
\<close>

theorem map_decode_keeps_last_value:
  assumes "readline_int s = Inr (n, t)"
    and "handle_elements d m (nat (n * 2)) t = Inr (es, r)"
    and "list_all hashable (map fst (pairs_of es))"
  shows "handle_request (Suc d) m (CHR ''%'' # s) =
           Inr (PDict (store_pairs [] (pairs_of es)), r) \<and>
         (\<forall>i < length es div 2. pairs_of es ! i = (es ! (2 * i), es ! (2 * i + 1))) \<and>
         distinct (map fst (store_pairs [] (pairs_of es))) \<and>
         set (map fst (store_pairs [] (pairs_of es))) = set (map fst (pairs_of es)) \<and>
         map_of (store_pairs [] (pairs_of es)) = map_of (rev (pairs_of es))"
proof -
  from assms(3) have "py_dict (pairs_of es) = Inr (store_pairs [] (pairs_of es))"
    by (simp add: py_dict_def dict_update_hashable)
  with handle_dict_pairs[OF assms(1,2)]
  have "handle_request (Suc d) m (CHR ''%'' # s) =
          Inr (PDict (store_pairs [] (pairs_of es)), r)"
    by (simp only: handle_request_percent sum.case)
  moreover have "distinct (map fst (store_pairs [] (pairs_of es)))"
    by (rule distinct_store_pairs) simp
  moreover have "set (map fst (store_pairs [] (pairs_of es))) = set (map fst (pairs_of es))"
    using keys_store_pairs[of "[]" "pairs_of es"] by simp
  moreover have "map_of (store_pairs [] (pairs_of es)) = map_of (rev (pairs_of es))"
    by (simp add: map_of_store_pairs)
  ultimately show ?thesis by (simp add: pairs_of_nth)
qed

theorem map_decode_keeps_last_value_witness:
  "handle_request (Suc 1) server_side
     (''%2'' @ CRLF @ '':1'' @ CRLF @ '':2'' @ CRLF @ '':1'' @ CRLF @ '':3'' @ CRLF) =
     Inr (PDict [(PInt 1, PInt 3)], [])"
proof -
  have a: "readline_int (''2'' @ CRLF @ '':1'' @ CRLF @ '':2'' @ CRLF @ '':1'' @ CRLF @ '':3'' @ CRLF)
             = Inr (2, '':1'' @ CRLF @ '':2'' @ CRLF @ '':1'' @ CRLF @ '':3'' @ CRLF)"
    by code_simp
  have b: "handle_elements 1 server_side (nat (2 * 2))
             ('':1'' @ CRLF @ '':2'' @ CRLF @ '':1'' @ CRLF @ '':3'' @ CRLF) =
           Inr ([PInt 1, PInt 2, PInt 1, PInt 3], [])"
    by code_simp
  have c: "list_all hashable (map fst (pairs_of [PInt 1, PInt 2, PInt 1, PInt 3]))"
    by simp
  from map_decode_keeps_last_value[OF a b c, THEN conjunct1] show ?thesis
    by (simp add: store_pairs_def del: handle_request.simps)
qed

text \<open>
  C6 as the claim states it fails: the wire map with the pairs \<open>(1, 2)\<close> and
  \<open>(1, 3)\<close> decodes to the dictionary with the single entry \<open>(1, 3)\<close>, not to a
  value that holds both pairs.
\<close>

theorem map_decode_duplicates_counterexample:
  "handle_request 2 server_side
     (''%2'' @ CRLF @ '':1'' @ CRLF @ '':2'' @ CRLF @ '':1'' @ CRLF @ '':3'' @ CRLF) =
     Inr (PDict [(PInt 1, PInt 3)], []) \<and>
   handle_request 2 server_side
     (''%2'' @ CRLF @ '':1'' @ CRLF @ '':2'' @ CRLF @ '':1'' @ CRLF @ '':3'' @ CRLF) \<noteq>
     Inr (PDict [(PInt 1, PInt 2), (PInt 1, PInt 3)], [])"
  by code_simp

text \<open>
  C10. When the count line of a \<^verbatim>\<open>%\<close> value has been read and its elements have
  decoded, and the element at a key position is a list (a nested array), decoding
  the map raises \<^verbatim>\<open>TypeError\<close>: it yields no value, and the exception is neither
  \<^verbatim>\<open>Disconnect\<close> nor \<^verbatim>\<open>CommandError\<close>.
\<close>

theorem map_decode_array_key_TypeError:
  assumes "readline_int s = Inr (n, t)"
    and "handle_elements d m (nat (n * 2)) t = Inr (es, r)"
    and "PList xs \<in> set (map fst (pairs_of es))"
  shows "handle_request (Suc d) m (CHR ''%'' # s) = Inl TypeError"
proof -
  from assms(3) have "\<not> list_all hashable (map fst (pairs_of es))"
    by (force simp: list_all_iff)
  then have "py_dict (pairs_of es) = Inl TypeError"
    by (simp add: py_dict_def dict_update_unhashable)
  with handle_dict_pairs[OF assms(1,2)] show ?thesis
    by (simp only: handle_request_percent sum.case)
qed

theorem map_decode_array_key_TypeError_witness:
  "handle_request (Suc 1) server_side (''%1'' @ CRLF @ ''*0'' @ CRLF @ '':1'' @ CRLF) = Inl TypeError"
proof -
  have a: "readline_int (''1'' @ CRLF @ ''*0'' @ CRLF @ '':1'' @ CRLF) =
             Inr (1, ''*0'' @ CRLF @ '':1'' @ CRLF)"
    by code_simp
  have b: "handle_elements 1 server_side (nat (1 * 2)) (''*0'' @ CRLF @ '':1'' @ CRLF) =
             Inr ([PList [], PInt 1], [])"
    by code_simp
  have c: "PList [] \<in> set (map fst (pairs_of [PList [], PInt 1]))"
    by simp
  from map_decode_array_key_TypeError[OF a b c] show ?thesis
    by (simp del: handle_request.simps)
qed

section \<open>The end of the stream\<close>















section \<open>Writing and reading back\<close>

text \<open>
  The digits that \<^verbatim>\<open>%d\<close> writes are read back by \<^verbatim>\<open>int\<close> as the same integer,
  as long as there are no more of them than the interpreter converts.
\<close>

lemma is_digit_digit_char: "k < 10 \<Longrightarrow> is_digit (digit_char k)"
  by (simp add: is_digit_def digit_char_def)

lemma digit_val_digit_char: "k < 10 \<Longrightarrow> digit_val (digit_char k) = k"
  by (simp add: digit_val_def digit_char_def)

lemma show_nat_nonempty: "show_nat n \<noteq> []"
  by (subst show_nat.simps) simp

lemma show_nat_digits: "c \<in> set (show_nat n) \<Longrightarrow> is_digit c"
proof (induction n arbitrary: c rule: show_nat.induct)
  case (1 n)
  show ?case
  proof (cases "n < 10")
    case True
    with "1.prems" have "c = digit_char n"
      by (subst (asm) show_nat.simps) simp
    with True show ?thesis by (simp add: is_digit_digit_char)
  next
    case False
    with "1.prems" have "c \<in> set (show_nat (n div 10)) \<or> c = digit_char (n mod 10)"
      by (subst (asm) show_nat.simps) auto
    then show ?thesis
    proof
      assume "c \<in> set (show_nat (n div 10))"
      with "1.IH"[OF False] show ?thesis by blast
    next
      assume "c = digit_char (n mod 10)"
      then show ?thesis by (simp add: is_digit_digit_char)
    qed
  qed
qed

lemma show_nat_value: "foldl (\<lambda>a c. 10 * a + digit_val c) 0 (show_nat n) = n"
proof (induction n rule: show_nat.induct)
  case (1 n)
  show ?case
  proof (cases "n < 10")
    case True
    then show ?thesis
      by (subst show_nat.simps) (simp add: digit_val_digit_char)
  next
    case False
    with "1.IH" show ?thesis
      by (subst show_nat.simps) (simp add: digit_val_digit_char)
  qed
qed

lemma show_nat_length: "n < 10 ^ k \<Longrightarrow> 0 < k \<Longrightarrow> length (show_nat n) \<le> k"
proof (induction n arbitrary: k rule: show_nat.induct)
  case (1 n)
  show ?case
  proof (cases "n < 10")
    case True
    with "1.prems" show ?thesis
      by (subst show_nat.simps) simp
  next
    case False
    from "1.prems" obtain j where k: "k = Suc j" by (cases k) simp_all
    with False "1.prems" have "0 < j" by (cases j) simp_all
    from "1.prems" k have "n div 10 < 10 ^ j"
      by (simp add: less_mult_imp_div_less mult.commute)
    from "1.IH"[OF False this \<open>0 < j\<close>] k False show ?thesis
      by (subst show_nat.simps) simp
  qed
qed

lemma show_nat_short:
  assumes "int n \<le> ssize_max"
  shows "length (show_nat n) \<le> max_str_digits"
proof -
  from assms have "n < 10 ^ 19" by (simp add: ssize_max_def)
  from show_nat_length[OF this] show ?thesis by (simp add: max_str_digits_def)
qed

lemma percent_d_length:
  "int n \<le> ssize_max \<Longrightarrow> percent_d (int n) = Inr (show_nat n)"
  using show_nat_short[of n] by (simp add: percent_d_def show_int_def)

text \<open>Parsing a string of digits, with and without a minus sign.\<close>

lemma not_space_digit: "is_digit c \<Longrightarrow> \<not> is_space c"
  by (auto simp: is_digit_def is_space_def)

lemma not_sign_digit: "is_digit c \<Longrightarrow> c \<noteq> CHR ''-'' \<and> c \<noteq> CHR ''+'' \<and> c \<noteq> CHR ''_''
    \<and> c \<noteq> CR \<and> c \<noteq> LF"
  by (auto simp: is_digit_def)

lemma double_underscore_digits:
  "\<forall>c \<in> set ds. is_digit c \<Longrightarrow> \<not> double_underscore ds"
proof (induction ds rule: double_underscore.induct)
  case (1 a b cs)
  then show ?case by (auto dest: not_sign_digit)
qed simp_all

lemma py_int_digits:
  assumes d: "\<forall>c \<in> set ds. is_digit c" and ne: "ds \<noteq> []"
    and len: "length ds \<le> max_str_digits"
  shows "py_int ds = Inr (int (foldl (\<lambda>a c. 10 * a + digit_val c) 0 ds))"
proof -
  from ne obtain c cs where ds: "ds = c # cs" by (cases ds) simp_all
  with d have c: "is_digit c" by simp
  from c ds have s1: "dropWhile is_space ds = ds"
    by (simp add: not_space_digit)
  from d have tw: "takeWhile (\<lambda>c. is_digit c \<or> c = CHR ''_'') ds = ds"
    by (simp add: takeWhile_eq_all_conv)
  from d have dw: "dropWhile (\<lambda>c. is_digit c \<or> c = CHR ''_'') ds = []"
    by (simp add: dropWhile_eq_Nil_conv)
  from d have fl: "filter is_digit ds = ds"
    by (simp add: filter_id_conv)
  from d ne have la: "is_digit (last ds)" by simp
  have s2: "(case ds of [] \<Rightarrow> [] | c # r \<Rightarrow> if c = CHR ''-'' \<or> c = CHR ''+'' then r else ds) = ds"
    using ds c not_sign_digit[OF c] by simp
  have ng: "(case ds of [] \<Rightarrow> False | c # _ \<Rightarrow> c = CHR ''-'') = False"
    using ds c not_sign_digit[OF c] by simp
  show ?thesis
    unfolding py_int_def Let_def s1 s2 ng tw dw fl
    using ds c la len double_underscore_digits[OF d] by simp
qed

lemma py_int_minus_digits:
  assumes d: "\<forall>c \<in> set ds. is_digit c" and ne: "ds \<noteq> []"
    and len: "length ds \<le> max_str_digits"
  shows "py_int (CHR ''-'' # ds) = Inr (- int (foldl (\<lambda>a c. 10 * a + digit_val c) 0 ds))"
proof -
  from ne obtain c cs where ds: "ds = c # cs" by (cases ds) simp_all
  with d have c: "is_digit c" by simp
  have s1: "dropWhile is_space (CHR ''-'' # ds) = CHR ''-'' # ds"
    by (simp add: is_space_def)
  from d have tw: "takeWhile (\<lambda>c. is_digit c \<or> c = CHR ''_'') ds = ds"
    by (simp add: takeWhile_eq_all_conv)
  from d have dw: "dropWhile (\<lambda>c. is_digit c \<or> c = CHR ''_'') ds = []"
    by (simp add: dropWhile_eq_Nil_conv)
  from d have fl: "filter is_digit ds = ds"
    by (simp add: filter_id_conv)
  from d ne have la: "is_digit (last ds)" by simp
  have s2: "(case CHR ''-'' # ds of [] \<Rightarrow> []
             | c # r \<Rightarrow> if c = CHR ''-'' \<or> c = CHR ''+'' then r else CHR ''-'' # ds) = ds"
    by simp
  have ng: "(case CHR ''-'' # ds of [] \<Rightarrow> False | c # _ \<Rightarrow> c = CHR ''-'') = True"
    by simp
  show ?thesis
    unfolding py_int_def Let_def s1 s2 ng tw dw fl
    using ds c la len double_underscore_digits[OF d] by simp
qed

lemma py_int_show_int:
  assumes "length (show_nat (nat \<bar>i\<bar>)) \<le> max_str_digits"
  shows "py_int (show_int i) = Inr i"
proof (cases "i < 0")
  case True
  have "py_int (CHR ''-'' # show_nat (nat (- i))) =
          Inr (- int (foldl (\<lambda>a c. 10 * a + digit_val c) 0 (show_nat (nat (- i)))))"
    using assms True
    by (intro py_int_minus_digits) (auto simp: show_nat_nonempty dest: show_nat_digits)
  with True show ?thesis by (simp add: show_int_def show_nat_value)
next
  case False
  have "py_int (show_nat (nat i)) =
          Inr (int (foldl (\<lambda>a c. 10 * a + digit_val c) 0 (show_nat (nat i))))"
    using assms False
    by (intro py_int_digits) (auto simp: show_nat_nonempty dest: show_nat_digits)
  with False show ?thesis by (simp add: show_int_def show_nat_value)
qed

lemma show_int_no_LF: "LF \<notin> set (show_int i)"
  by (auto simp: show_int_def dest!: show_nat_digits not_sign_digit)

lemma readline_CRLF:
  assumes "LF \<notin> set l"
  shows "readline (l @ CRLF @ rest) = (l @ CRLF, rest)"
proof -
  from assms have "dropWhile (\<lambda>c. c \<noteq> LF) (l @ CR # LF # rest) = LF # rest"
    by (induction l) auto
  moreover from assms have "takeWhile (\<lambda>c. c \<noteq> LF) (l @ CR # LF # rest) = l @ [CR]"
    by (induction l) auto
  ultimately show ?thesis by (simp add: readline_def)
qed

lemma rstrip_CRLF:
  assumes "l \<noteq> []" and "last l \<noteq> CR" and "last l \<noteq> LF"
  shows "rstrip CRLF (l @ CRLF) = l"
proof -
  from assms have "dropWhile (\<lambda>c. c \<in> set CRLF) (rev l) = rev l"
    by (cases l rule: rev_cases) simp_all
  then show ?thesis by (simp add: rstrip_def)
qed

lemma readline_int_show_int:
  assumes "length (show_nat (nat \<bar>i\<bar>)) \<le> max_str_digits"
  shows "readline_int (show_int i @ CRLF @ rest) = Inr (i, rest)"
proof -
  have ne: "show_int i \<noteq> []" by (simp add: show_int_def show_nat_nonempty)
  have "last (show_int i) = last (show_nat (nat \<bar>i\<bar>))"
    by (simp add: show_int_def show_nat_nonempty abs_if)
  moreover have "is_digit (last (show_nat (nat \<bar>i\<bar>)))"
    using show_nat_digits[of "last (show_nat (nat \<bar>i\<bar>))" "nat \<bar>i\<bar>"]
    by (simp add: show_nat_nonempty)
  ultimately have la: "last (show_int i) \<noteq> CR" "last (show_int i) \<noteq> LF"
    using not_sign_digit by auto
  from readline_CRLF[OF show_int_no_LF] rstrip_CRLF[OF ne la] py_int_show_int[OF assms]
  show ?thesis by (simp add: readline_int_def)
qed

text \<open>
  The values that \<^verbatim>\<open>_write\<close> can be given and that come back from the decoder:
  byte strings whose length plus two is a valid \<^verbatim>\<open>read\<close> size, integers of no more
  decimal digits than the interpreter converts, \<^verbatim>\<open>None\<close>, lists, and dictionaries.
  A dictionary of the interpreter has hashable keys, each of them once, so the
  association list that stands for it has them too. A \<^verbatim>\<open>str\<close> is written as a bulk
  string and read back as \<^verbatim>\<open>bytes\<close> on the server side, and an \<^verbatim>\<open>Error\<close> is not
  written at all; neither is among these values.
\<close>

function (sequential) representable :: "pyval \<Rightarrow> bool"
  and representable_items :: "pyval list \<Rightarrow> bool"
  and representable_pairs :: "(pyval \<times> pyval) list \<Rightarrow> bool"
where
  "representable (PBytes b) = (int (length b) + 2 \<le> ssize_max)"
| "representable (PInt i) = (length (show_nat (nat \<bar>i\<bar>)) \<le> max_str_digits)"
| "representable PNone = True"
| "representable (PList xs) = (int (length xs) \<le> ssize_max \<and> representable_items xs)"
| "representable (PDict ps) =
     (int (length ps) \<le> ssize_max \<and> distinct (map fst ps) \<and> representable_pairs ps)"
| "representable (PStr s) = False"
| "representable (Error m) = False"
| "representable_items [] = True"
| "representable_items (x # xs) = (representable x \<and> representable_items xs)"
| "representable_pairs [] = True"
| "representable_pairs ((k, v) # ps) =
     (hashable k \<and> representable k \<and> representable v \<and> representable_pairs ps)"
  by pat_completeness auto

termination
  by (relation "measure (case_sum size (case_sum (size_list size)
        (size_list (size_prod size size))))") auto

text \<open>
  The number of nested calls of \<^verbatim>\<open>handle_request\<close> that decoding a value takes:
  one for a scalar, one more than its deepest element for a list or a dictionary.
\<close>

function (sequential) depth :: "pyval \<Rightarrow> nat"
  and depth_items :: "pyval list \<Rightarrow> nat"
  and depth_pairs :: "(pyval \<times> pyval) list \<Rightarrow> nat"
where
  "depth (PBytes b) = Suc 0"
| "depth (PStr s) = Suc 0"
| "depth (PInt i) = Suc 0"
| "depth PNone = Suc 0"
| "depth (Error m) = Suc 0"
| "depth (PList xs) = Suc (depth_items xs)"
| "depth (PDict ps) = Suc (depth_pairs ps)"
| "depth_items [] = 0"
| "depth_items (x # xs) = max (depth x) (depth_items xs)"
| "depth_pairs [] = 0"
| "depth_pairs ((k, v) # ps) = max (max (depth k) (depth v)) (depth_pairs ps)"
  by pat_completeness auto

termination
  by (relation "measure (case_sum size (case_sum (size_list size)
        (size_list (size_prod size size))))") auto

text \<open>
  The elements of a dictionary in the order they are written: key, value, key, value.
\<close>

fun flatten :: "('a \<times> 'a) list \<Rightarrow> 'a list" where
  "flatten [] = []"
| "flatten ((k, v) # ps) = k # v # flatten ps"

lemma pairs_of_flatten: "pairs_of (flatten ps) = ps"
  by (induction ps rule: flatten.induct) simp_all

lemma length_flatten: "length (flatten ps) = 2 * length ps"
  by (induction ps rule: flatten.induct) simp_all

lemma update_new_key:
  "k \<notin> set (map fst kv) \<Longrightarrow> AList.update k v kv = kv @ [(k, v)]"
  by (induction kv) auto

lemma store_pairs_distinct:
  "distinct (map fst (kv @ ps)) \<Longrightarrow> store_pairs kv ps = kv @ ps"
proof (induction ps arbitrary: kv)
  case Nil
  show ?case by (simp add: store_pairs_def)
next
  case (Cons p ps)
  obtain k v where p: "p = (k, v)" by (cases p)
  from Cons.prems p have n: "k \<notin> set (map fst kv)" by auto
  from Cons.prems p have "distinct (map fst ((kv @ [(k, v)]) @ ps))" by simp
  from Cons.IH[OF this] have "store_pairs (kv @ [(k, v)]) ps = kv @ (k, v) # ps" by simp
  with p update_new_key[OF n] show ?case by (simp add: store_pairs_def)
qed

lemma representable_pairs_hashable:
  "representable_pairs ps \<Longrightarrow> list_all hashable (map fst ps)"
  by (induction ps) auto

lemma py_dict_distinct:
  assumes "representable_pairs ps" and "distinct (map fst ps)"
  shows "py_dict ps = Inr ps"
  using assms store_pairs_distinct[of "[]" ps]
  by (simp add: py_dict_def dict_update_hashable representable_pairs_hashable)

lemma show_int_nat: "show_int (int n) = show_nat n"
  by (simp add: show_int_def)

lemma show_int_minus_one: "show_int (- 1) = ''-1''"
  by code_simp

lemma handle_string_bulk:
  assumes "int (length b) + 2 \<le> ssize_max"
  shows "handle_string server_side (show_nat (length b) @ CRLF @ b @ CRLF @ rest) =
           Inr (PBytes b, rest)"
proof -
  from assms have "int (length b) \<le> ssize_max" by simp
  from show_nat_short[OF this]
  have "length (show_nat (nat \<bar>int (length b)\<bar>)) \<le> max_str_digits" by simp
  from readline_int_show_int[OF this, of "b @ CRLF @ rest"]
  have r: "readline_int (show_nat (length b) @ CRLF @ b @ CRLF @ rest) =
             Inr (int (length b), b @ CRLF @ rest)"
    by (simp add: show_int_nat)
  have n: "nat (int (length b) + 2) = length b + 2" by simp
  from assms have rd: "read (int (length b) + 2) (b @ CRLF @ rest) = Inr (b @ CRLF, rest)"
    unfolding read_def n by (simp add: ssize_max_def)
  from r rd show ?thesis by (simp add: handle_string_def)
qed

lemma handle_string_null:
  "handle_string m (''-1'' @ CRLF @ rest) = Inr (PNone, rest)"
proof -
  have "length (show_nat (nat \<bar>- 1 :: int\<bar>)) \<le> max_str_digits"
    by (simp add: show_nat.simps max_str_digits_def)
  from readline_int_show_int[OF this, of rest]
  have "readline_int (''-1'' @ CRLF @ rest) = Inr (- 1, rest)"
    by (simp add: show_int_minus_one)
  then show ?thesis by (simp add: handle_string_def)
qed

lemma handle_integer_show_int:
  assumes "length (show_nat (nat \<bar>i\<bar>)) \<le> max_str_digits"
  shows "handle_integer m (show_int i @ CRLF @ rest) = Inr (PInt i, rest)"
  using readline_int_show_int[OF assms, of rest] by (simp add: handle_integer_def)

lemma readline_int_show_nat:
  assumes "int n \<le> ssize_max"
  shows "readline_int (show_nat n @ CRLF @ rest) = Inr (int n, rest)"
proof -
  from show_nat_short[OF assms]
  have "length (show_nat (nat \<bar>int n\<bar>)) \<le> max_str_digits" by simp
  from readline_int_show_int[OF this, of rest] show ?thesis
    by (simp add: show_int_nat)
qed


lemma roundtrip_bytes:
  assumes "representable (PBytes b)"
  shows "\<exists>bs. write_data (PBytes b) = Inr bs \<and>
           (\<forall>d rest. depth (PBytes b) \<le> d \<longrightarrow>
              handle_request d server_side (bs @ rest) = Inr (PBytes b, rest))"
proof -
  from assms have len: "int (length b) + 2 \<le> ssize_max" by simp
  then have "int (length b) \<le> ssize_max" by simp
  from percent_d_length[OF this]
  have w: "write_data (PBytes b) = Inr (CHR ''$'' # show_nat (length b) @ CRLF @ b @ CRLF)"
    by (simp add: bulk_def)
  have "handle_request d server_side
          ((CHR ''$'' # show_nat (length b) @ CRLF @ b @ CRLF) @ rest) = Inr (PBytes b, rest)"
    if "depth (PBytes b) \<le> d" for d rest
  proof -
    from that obtain d' where d: "d = Suc d'" by (cases d) simp_all
    from handle_string_bulk[OF len, of rest] show ?thesis
      unfolding d by (simp del: handle_request.simps add: handle_request_dollar)
  qed
  with w show ?thesis by blast
qed

lemma roundtrip_int:
  assumes "representable (PInt i)"
  shows "\<exists>bs. write_data (PInt i) = Inr bs \<and>
           (\<forall>d rest. depth (PInt i) \<le> d \<longrightarrow>
              handle_request d server_side (bs @ rest) = Inr (PInt i, rest))"
proof -
  from assms have len: "length (show_nat (nat \<bar>i\<bar>)) \<le> max_str_digits" by simp
  then have w: "write_data (PInt i) = Inr (CHR '':'' # show_int i @ CRLF)"
    by (simp add: percent_d_def)
  have "handle_request d server_side ((CHR '':'' # show_int i @ CRLF) @ rest) =
          Inr (PInt i, rest)"
    if "depth (PInt i) \<le> d" for d rest
  proof -
    from that obtain d' where d: "d = Suc d'" by (cases d) simp_all
    from handle_integer_show_int[OF len, of server_side rest] show ?thesis
      unfolding d by (simp del: handle_request.simps add: handle_request_colon)
  qed
  with w show ?thesis by blast
qed

lemma roundtrip_None:
  shows "\<exists>bs. write_data PNone = Inr bs \<and>
           (\<forall>d rest. depth PNone \<le> d \<longrightarrow>
              handle_request d server_side (bs @ rest) = Inr (PNone, rest))"
proof -
  have "handle_request d server_side ((''$-1'' @ CRLF) @ rest) = Inr (PNone, rest)"
    if "depth PNone \<le> d" for d rest
  proof -
    from that obtain d' where d: "d = Suc d'" by (cases d) simp_all
    from handle_string_null[of server_side rest] show ?thesis
      unfolding d by (simp del: handle_request.simps add: handle_request_dollar)
  qed
  then show ?thesis by simp
qed

lemma roundtrip_list:
  assumes "int (length xs) \<le> ssize_max"
    and w: "write_items xs = Inr bs"
    and r: "\<forall>d rest. depth_items xs \<le> d \<longrightarrow>
              handle_elements d server_side (length xs) (bs @ rest) = Inr (xs, rest)"
  shows "\<exists>bs. write_data (PList xs) = Inr bs \<and>
           (\<forall>d rest. depth (PList xs) \<le> d \<longrightarrow>
              handle_request d server_side (bs @ rest) = Inr (PList xs, rest))"
proof -
  from percent_d_length[OF assms(1)] w
  have wd: "write_data (PList xs) = Inr (CHR ''*'' # show_nat (length xs) @ CRLF @ bs)"
    by simp
  have "handle_request d server_side
          ((CHR ''*'' # show_nat (length xs) @ CRLF @ bs) @ rest) = Inr (PList xs, rest)"
    if "depth (PList xs) \<le> d" for d rest
  proof -
    from that obtain d' where d: "d = Suc d'" and d': "depth_items xs \<le> d'"
      by (cases d) simp_all
    from r d' have e: "handle_elements d' server_side (length xs) (bs @ rest) = Inr (xs, rest)"
      by blast
    from readline_int_show_nat[OF assms(1), of "bs @ rest"]
    have l: "readline_int (show_nat (length xs) @ CRLF @ bs @ rest) =
               Inr (int (length xs), bs @ rest)" .
    have "handle_array d' server_side (show_nat (length xs) @ CRLF @ bs @ rest) =
            Inr (PList xs, rest)"
      using l e by (simp only: handle_array.simps sum.case prod.case nat_int)
    then show ?thesis
      unfolding d by (simp del: handle_request.simps handle_array.simps add: handle_request_star)
  qed
  with wd show ?thesis by blast
qed

lemma roundtrip_dict:
  assumes "int (length ps) \<le> ssize_max" and dist: "distinct (map fst ps)"
    and rep: "representable_pairs ps"
    and w: "write_pairs ps = Inr bs"
    and r: "\<forall>d rest. depth_pairs ps \<le> d \<longrightarrow>
              handle_elements d server_side (2 * length ps) (bs @ rest) =
                Inr (flatten ps, rest)"
  shows "\<exists>bs. write_data (PDict ps) = Inr bs \<and>
           (\<forall>d rest. depth (PDict ps) \<le> d \<longrightarrow>
              handle_request d server_side (bs @ rest) = Inr (PDict ps, rest))"
proof -
  from percent_d_length[OF assms(1)] w
  have wd: "write_data (PDict ps) = Inr (CHR ''%'' # show_nat (length ps) @ CRLF @ bs)"
    by simp
  have "handle_request d server_side
          ((CHR ''%'' # show_nat (length ps) @ CRLF @ bs) @ rest) = Inr (PDict ps, rest)"
    if "depth (PDict ps) \<le> d" for d rest
  proof -
    from that obtain d' where d: "d = Suc d'" and d': "depth_pairs ps \<le> d'"
      by (cases d) simp_all
    have n: "nat (int (length ps) * 2) = 2 * length ps" by simp
    from r d'
    have e: "handle_elements d' server_side (nat (int (length ps) * 2)) (bs @ rest) =
               Inr (flatten ps, rest)"
      unfolding n by blast
    from readline_int_show_nat[OF assms(1), of "bs @ rest"]
    have l: "readline_int (show_nat (length ps) @ CRLF @ bs @ rest) =
               Inr (int (length ps), bs @ rest)" .
    have "handle_dict d' server_side (show_nat (length ps) @ CRLF @ bs @ rest) =
            Inr (PDict ps, rest)"
      unfolding handle_dict_pairs[OF l e] pairs_of_flatten py_dict_distinct[OF rep dist]
      by simp
    then show ?thesis
      unfolding d by (simp del: handle_request.simps handle_dict.simps add: handle_request_percent)
  qed
  with wd show ?thesis by blast
qed

lemma roundtrip_items_Cons:
  assumes wx: "write_data x = Inr bx"
    and rx: "\<forall>d rest. depth x \<le> d \<longrightarrow>
               handle_request d server_side (bx @ rest) = Inr (x, rest)"
    and wxs: "write_items xs = Inr bxs"
    and rxs: "\<forall>d rest. depth_items xs \<le> d \<longrightarrow>
               handle_elements d server_side (length xs) (bxs @ rest) = Inr (xs, rest)"
  shows "\<exists>bs. write_items (x # xs) = Inr bs \<and>
           (\<forall>d rest. depth_items (x # xs) \<le> d \<longrightarrow>
              handle_elements d server_side (length (x # xs)) (bs @ rest) =
                Inr (x # xs, rest))"
proof -
  from wx wxs have w: "write_items (x # xs) = Inr (bx @ bxs)" by simp
  have "handle_elements d server_side (length (x # xs)) ((bx @ bxs) @ rest) =
          Inr (x # xs, rest)"
    if "depth_items (x # xs) \<le> d" for d rest
  proof -
    from that have dx: "depth x \<le> d" and dxs: "depth_items xs \<le> d" by simp_all
    from rx dx have a: "handle_request d server_side (bx @ bxs @ rest) = Inr (x, bxs @ rest)"
      by blast
    from rxs dxs
    have b: "handle_elements d server_side (length xs) (bxs @ rest) = Inr (xs, rest)"
      by blast
    from a b show ?thesis
      by (simp only: list.size handle_elements.simps append_assoc sum.case prod.case
            Suc_eq_plus1[symmetric] add_Suc_right add_0_right)
  qed
  with w show ?thesis by blast
qed

lemma roundtrip_pairs_Cons:
  assumes wk: "write_data k = Inr bk"
    and rk: "\<forall>d rest. depth k \<le> d \<longrightarrow>
               handle_request d server_side (bk @ rest) = Inr (k, rest)"
    and wv: "write_data v = Inr bv"
    and rv: "\<forall>d rest. depth v \<le> d \<longrightarrow>
               handle_request d server_side (bv @ rest) = Inr (v, rest)"
    and wps: "write_pairs ps = Inr bps"
    and rps: "\<forall>d rest. depth_pairs ps \<le> d \<longrightarrow>
               handle_elements d server_side (2 * length ps) (bps @ rest) =
                 Inr (flatten ps, rest)"
  shows "\<exists>bs. write_pairs ((k, v) # ps) = Inr bs \<and>
           (\<forall>d rest. depth_pairs ((k, v) # ps) \<le> d \<longrightarrow>
              handle_elements d server_side (2 * length ((k, v) # ps)) (bs @ rest) =
                Inr (flatten ((k, v) # ps), rest))"
proof -
  from wk wv wps have w: "write_pairs ((k, v) # ps) = Inr (bk @ bv @ bps)" by simp
  have "handle_elements d server_side (2 * length ((k, v) # ps)) ((bk @ bv @ bps) @ rest) =
          Inr (flatten ((k, v) # ps), rest)"
    if "depth_pairs ((k, v) # ps) \<le> d" for d rest
  proof -
    from that have dk: "depth k \<le> d" and dv: "depth v \<le> d" and dps: "depth_pairs ps \<le> d"
      by simp_all
    have n: "2 * length ((k, v) # ps) = Suc (Suc (2 * length ps))" by simp
    from rk dk
    have a: "handle_request d server_side (bk @ bv @ bps @ rest) = Inr (k, bv @ bps @ rest)"
      by blast
    from rv dv
    have b: "handle_request d server_side (bv @ bps @ rest) = Inr (v, bps @ rest)"
      by blast
    from rps dps
    have c: "handle_elements d server_side (2 * length ps) (bps @ rest) =
               Inr (flatten ps, rest)"
      by blast
    from a b c show ?thesis
      unfolding n
      by (simp only: handle_elements.simps append_assoc sum.case prod.case flatten.simps)
  qed
  with w show ?thesis by blast
qed


lemma roundtrip_all:
  "representable v \<longrightarrow>
     (\<exists>bs. write_data v = Inr bs \<and>
        (\<forall>d rest. depth v \<le> d \<longrightarrow>
           handle_request d server_side (bs @ rest) = Inr (v, rest)))"
  "representable_items xs \<longrightarrow>
     (\<exists>bs. write_items xs = Inr bs \<and>
        (\<forall>d rest. depth_items xs \<le> d \<longrightarrow>
           handle_elements d server_side (length xs) (bs @ rest) = Inr (xs, rest)))"
  "representable_pairs ps \<longrightarrow>
     (\<exists>bs. write_pairs ps = Inr bs \<and>
        (\<forall>d rest. depth_pairs ps \<le> d \<longrightarrow>
           handle_elements d server_side (2 * length ps) (bs @ rest) =
             Inr (flatten ps, rest)))"
proof (induction v and xs and ps rule: depth_depth_items_depth_pairs.induct)
  case (1 b)
  show ?case using roundtrip_bytes[of b] by blast
next
  case (2 s)
  show ?case by simp
next
  case (3 i)
  show ?case using roundtrip_int[of i] by blast
next
  case 4
  show ?case using roundtrip_None by blast
next
  case (5 m)
  show ?case by simp
next
  case (6 xs)
  show ?case
  proof
    assume "representable (PList xs)"
    then have l: "int (length xs) \<le> ssize_max" and i: "representable_items xs" by simp_all
    from 6 i obtain bs where "write_items xs = Inr bs"
      and "\<forall>d rest. depth_items xs \<le> d \<longrightarrow>
             handle_elements d server_side (length xs) (bs @ rest) = Inr (xs, rest)"
      by blast
    then show "\<exists>bs. write_data (PList xs) = Inr bs \<and>
           (\<forall>d rest. depth (PList xs) \<le> d \<longrightarrow>
              handle_request d server_side (bs @ rest) = Inr (PList xs, rest))"
      by (rule roundtrip_list[OF l])
  qed
next
  case (7 ps)
  show ?case
  proof
    assume "representable (PDict ps)"
    then have l: "int (length ps) \<le> ssize_max" and di: "distinct (map fst ps)"
      and i: "representable_pairs ps" by simp_all
    from 7 i obtain bs where "write_pairs ps = Inr bs"
      and "\<forall>d rest. depth_pairs ps \<le> d \<longrightarrow>
             handle_elements d server_side (2 * length ps) (bs @ rest) =
               Inr (flatten ps, rest)"
      by blast
    then show "\<exists>bs. write_data (PDict ps) = Inr bs \<and>
           (\<forall>d rest. depth (PDict ps) \<le> d \<longrightarrow>
              handle_request d server_side (bs @ rest) = Inr (PDict ps, rest))"
      by (rule roundtrip_dict[OF l di i])
  qed
next
  case 8
  show ?case by simp
next
  case (9 x xs)
  show ?case
  proof
    assume "representable_items (x # xs)"
    then have rx: "representable x" and rxs: "representable_items xs" by simp_all
    from 9(1) rx obtain bx where wx: "write_data x = Inr bx"
      and dx: "\<forall>d rest. depth x \<le> d \<longrightarrow>
             handle_request d server_side (bx @ rest) = Inr (x, rest)"
      by blast
    from 9(2) rxs obtain bxs where wxs: "write_items xs = Inr bxs"
      and dxs: "\<forall>d rest. depth_items xs \<le> d \<longrightarrow>
             handle_elements d server_side (length xs) (bxs @ rest) = Inr (xs, rest)"
      by blast
    from wx dx wxs dxs
    show "\<exists>bs. write_items (x # xs) = Inr bs \<and>
           (\<forall>d rest. depth_items (x # xs) \<le> d \<longrightarrow>
              handle_elements d server_side (length (x # xs)) (bs @ rest) =
                Inr (x # xs, rest))"
      by (rule roundtrip_items_Cons)
  qed
next
  case 10
  show ?case by simp
next
  case (11 k v ps)
  show ?case
  proof
    assume "representable_pairs ((k, v) # ps)"
    then have rk: "representable k" and rv: "representable v"
      and rps: "representable_pairs ps" by simp_all
    from 11(1) rk obtain bk where wk: "write_data k = Inr bk"
      and dk: "\<forall>d rest. depth k \<le> d \<longrightarrow>
             handle_request d server_side (bk @ rest) = Inr (k, rest)"
      by blast
    from 11(2) rv obtain bv where wv: "write_data v = Inr bv"
      and dv: "\<forall>d rest. depth v \<le> d \<longrightarrow>
             handle_request d server_side (bv @ rest) = Inr (v, rest)"
      by blast
    from 11(3) rps obtain bps where wps: "write_pairs ps = Inr bps"
      and dps: "\<forall>d rest. depth_pairs ps \<le> d \<longrightarrow>
             handle_elements d server_side (2 * length ps) (bps @ rest) =
               Inr (flatten ps, rest)"
      by blast
    from wk dk wv dv wps dps
    show "\<exists>bs. write_pairs ((k, v) # ps) = Inr bs \<and>
           (\<forall>d rest. depth_pairs ((k, v) # ps) \<le> d \<longrightarrow>
              handle_elements d server_side (2 * length ((k, v) # ps)) (bs @ rest) =
                Inr (flatten ((k, v) # ps), rest))"
      by (rule roundtrip_pairs_Cons)
  qed
qed


lemma int64_representable:
  assumes "- (2 ^ 63) \<le> i" and "i < 2 ^ 63"
  shows "representable (PInt i)"
proof -
  from assms have "int (nat \<bar>i\<bar>) \<le> ssize_max \<or> nat \<bar>i\<bar> = 2 ^ 63"
    by (auto simp: ssize_max_def)
  then show ?thesis
  proof
    assume "int (nat \<bar>i\<bar>) \<le> ssize_max"
    from show_nat_short[OF this] show ?thesis by simp
  next
    assume e: "nat \<bar>i\<bar> = 2 ^ 63"
    have "(2::nat) ^ 63 < 10 ^ 19" by simp
    from show_nat_length[OF this] have "length (show_nat (2 ^ 63)) \<le> 19" by simp
    with e show ?thesis by (simp add: max_str_digits_def)
  qed
qed

text \<open>
  C5. Every representable value is written by \<^verbatim>\<open>write_response\<close> without an
  exception, and \<^verbatim>\<open>handle_request\<close> on the server side, allowed at least as many
  nested calls as the value is deep, reads the written bytes back as the same value
  and leaves whatever follows them in the stream untouched.
\<close>

theorem decode_encode_roundtrip:
  assumes "representable v" and "depth v \<le> d"
  shows "\<exists>bs. write_response v = Inr bs \<and>
           (\<forall>rest. handle_request d server_side (bs @ rest) = Inr (v, rest))"
  using roundtrip_all(1)[of v] assms unfolding write_response_def by blast

theorem decode_encode_roundtrip_witness:
  "representable (PList [PInt (- 5), PBytes ''ab'', PNone, PDict [(PBytes ''k'', PList [])]]) \<and>
   depth (PList [PInt (- 5), PBytes ''ab'', PNone, PDict [(PBytes ''k'', PList [])]]) \<le>
     Suc (Suc (Suc 0)) \<and>
   write_response (PList [PInt (- 5), PBytes ''ab'', PNone, PDict [(PBytes ''k'', PList [])]]) =
     Inr (''*4'' @ CRLF @ '':-5'' @ CRLF @ ''$2'' @ CRLF @ ''ab'' @ CRLF @ ''$-1'' @ CRLF @
          ''%1'' @ CRLF @ ''$1'' @ CRLF @ ''k'' @ CRLF @ ''*0'' @ CRLF) \<and>
   handle_request (Suc (Suc (Suc 0))) server_side
     (''*4'' @ CRLF @ '':-5'' @ CRLF @ ''$2'' @ CRLF @ ''ab'' @ CRLF @ ''$-1'' @ CRLF @
      ''%1'' @ CRLF @ ''$1'' @ CRLF @ ''k'' @ CRLF @ ''*0'' @ CRLF) =
     Inr (PList [PInt (- 5), PBytes ''ab'', PNone, PDict [(PBytes ''k'', PList [])]], [])"
proof -
  let ?v = "PList [PInt (- 5), PBytes ''ab'', PNone, PDict [(PBytes ''k'', PList [])]]"
  let ?b = "''*4'' @ CRLF @ '':-5'' @ CRLF @ ''$2'' @ CRLF @ ''ab'' @ CRLF @ ''$-1'' @ CRLF @
            ''%1'' @ CRLF @ ''$1'' @ CRLF @ ''k'' @ CRLF @ ''*0'' @ CRLF"
  have r: "representable ?v" by code_simp
  have d: "depth ?v \<le> Suc (Suc (Suc 0))" by code_simp
  have w: "write_response ?v = Inr ?b" by code_simp
  from decode_encode_roundtrip[OF r d] obtain bs where
    a: "write_response ?v = Inr bs" and
    b: "\<forall>rest. handle_request (Suc (Suc (Suc 0))) server_side (bs @ rest) = Inr (?v, rest)"
    by blast
  from a w have e: "bs = ?b" by (simp only: sum.inject)
  from b have "handle_request (Suc (Suc (Suc 0))) server_side (bs @ []) = Inr (?v, [])"
    by (rule spec)
  then have h: "handle_request (Suc (Suc (Suc 0))) server_side ?b = Inr (?v, [])"
    unfolding e append_Nil2 .
  from r d w h show ?thesis by (intro conjI)
qed

end
